theory Spec2Isabelle
  imports Main "HOL-Library.Word"
begin

unbundle bit_operations_syntax

section \<open>Data model of the 128-bit elastic binary tree\<close>

text \<open>
  The C sources keep the tree in caller-owned records linked by tagged pointers, with
  parent back-pointers. The model is an explicit store: a node record lives at an address
  (\<open>addr\<close>), the tree root is one more branches pair, and every pointer of the C code to a
  \<^verbatim>\<open>struct eb_root\<close> is either the tree root or the branches pair of a node record.
\<close>

type_synonym u128 = "128 word"
type_synonym u64 = "64 word"
type_synonym u32 = "32 word"
type_synonym addr = nat

datatype eb_root_ptr = Root | Branches addr

text \<open>
  \<^verbatim>\<open>eb_troot_t *\<close>: a pointer to a branches pair (or the null pointer, \<open>None\<close>) whose lowest
  bit carries a tag.
\<close>

datatype eb_troot = Troot "eb_root_ptr option" bool

datatype fault = Invalid_Pointer | Undefined_Shift

record eb128_node =
  branches :: "bool \<Rightarrow> eb_troot"
  node_p :: eb_troot
  leaf_p :: eb_troot
  node_bit :: int
  key :: u128

record heap =
  tree_root :: "bool \<Rightarrow> eb_troot"
  nodes :: "addr \<Rightarrow> eb128_node"

text \<open>
  Modelled from the spec: the tag values and the node fan-out, which \<^verbatim>\<open>ebtree.h\<close> defines
  and which is not among the sources. The glossary gives the two tag bits (left 0 and
  right 1 on a parent link, node 0 and leaf 1 on a child link); the insertion steps give
  one key bit per level, so two branches per node and a branch mask of 1.
\<close>

definition EB_LEFT :: bool where "EB_LEFT = False"
definition EB_RGHT :: bool where "EB_RGHT = True"
definition EB_NODE :: bool where "EB_NODE = False"
definition EB_LEAF :: bool where "EB_LEAF = True"
definition EB_NODE_BITS :: int where "EB_NODE_BITS = 1"
definition EB_NODE_BRANCHES :: u128 where "EB_NODE_BRANCHES = 2"
definition EB_NODE_BRANCH_MASK :: u128 where "EB_NODE_BRANCH_MASK = 1"

definition NULL :: eb_troot where
  "NULL = Troot None False"

fun eb_gettag :: "eb_troot \<Rightarrow> bool" where
  "eb_gettag (Troot p t) = t"

fun eb_clrtag :: "eb_troot \<Rightarrow> eb_root_ptr option" where
  "eb_clrtag (Troot p t) = p"

text \<open>
  \<^verbatim>\<open>eb_untag(troot, tag)\<close> subtracts the tag it is given; with another tag than the one
  the pointer carries, the result is no pointer to a branches pair.
\<close>

fun eb_untag :: "eb_troot \<Rightarrow> bool \<Rightarrow> eb_root_ptr option" where
  "eb_untag (Troot p t) tg = (if t = tg then p else None)"

definition eb_dotag :: "eb_root_ptr \<Rightarrow> bool \<Rightarrow> eb_troot" where
  "eb_dotag r tg = Troot (Some r) tg"

text \<open>Reading and writing \<^verbatim>\<open>root->b[side]\<close> and the fields of a node record.\<close>

definition rd_b :: "heap \<Rightarrow> eb_root_ptr \<Rightarrow> bool \<Rightarrow> eb_troot" where
  "rd_b h r s = (case r of Root \<Rightarrow> tree_root h s | Branches a \<Rightarrow> branches (nodes h a) s)"

definition wr_b :: "heap \<Rightarrow> eb_root_ptr \<Rightarrow> bool \<Rightarrow> eb_troot \<Rightarrow> heap" where
  "wr_b h r s v =
     (case r of
        Root \<Rightarrow> h\<lparr>tree_root := (tree_root h)(s := v)\<rparr>
      | Branches a \<Rightarrow>
          h\<lparr>nodes := (nodes h)(a := (nodes h a)\<lparr>branches := (branches (nodes h a))(s := v)\<rparr>)\<rparr>)"

definition set_node_p :: "heap \<Rightarrow> addr \<Rightarrow> eb_troot \<Rightarrow> heap" where
  "set_node_p h a v = h\<lparr>nodes := (nodes h)(a := (nodes h a)\<lparr>node_p := v\<rparr>)\<rparr>"

definition set_leaf_p :: "heap \<Rightarrow> addr \<Rightarrow> eb_troot \<Rightarrow> heap" where
  "set_leaf_p h a v = h\<lparr>nodes := (nodes h)(a := (nodes h a)\<lparr>leaf_p := v\<rparr>)\<rparr>"

definition set_bit :: "heap \<Rightarrow> addr \<Rightarrow> int \<Rightarrow> heap" where
  "set_bit h a v = h\<lparr>nodes := (nodes h)(a := (nodes h a)\<lparr>node_bit := v\<rparr>)\<rparr>"

definition key_of :: "heap \<Rightarrow> addr \<Rightarrow> u128" where
  "key_of h a = key (nodes h a)"

text \<open>
  \<^verbatim>\<open>y >> n\<close> on a 128-bit value with an \<^verbatim>\<open>int\<close> shift count: C defines the result only
  for a count from 0 to 127. Every shift of the sources by a node's bit is modelled as the
  test \<open>valid_shift\<close> (a fault when it fails) followed by \<open>shr\<close>.
\<close>

definition valid_shift :: "int \<Rightarrow> bool" where
  "valid_shift n = (0 \<le> n \<and> n < 128)"

definition shr :: "u128 \<Rightarrow> int \<Rightarrow> u128" where
  "shr y n = drop_bit (nat n) y"

text \<open>
  Modelled from the spec: \<^verbatim>\<open>fls128\<close>, which the sources call and do not define. Insertion
  step 5 makes \<^verbatim>\<open>fls128(k) - EB_NODE_BITS\<close> the floor of the binary logarithm of \<open>k\<close>, the
  position of its most significant set bit, so \<^verbatim>\<open>fls128\<close> is the number of bits of \<open>k\<close>.
\<close>

fun fls_nat :: "nat \<Rightarrow> nat" where
  "fls_nat n = (if n = 0 then 0 else Suc (fls_nat (n div 2)))"

declare fls_nat.simps [simp del]

definition fls128 :: "u128 \<Rightarrow> int" where
  "fls128 k = int (fls_nat (unat k))"

section \<open>Walking down to a leaf\<close>

text \<open>
  The inner loops of the lookups,
  \<^verbatim>\<open>while (eb_gettag(troot) != EB_LEAF) troot = (eb_untag(troot, EB_NODE))->b[side];\<close>
  followed by \<^verbatim>\<open>container_of(eb_untag(troot, EB_LEAF), ...)\<close>.
\<close>

partial_function (option) descend :: "heap \<Rightarrow> bool \<Rightarrow> eb_troot \<Rightarrow> (fault + addr) option" where
  "descend h side troot =
     (if eb_gettag troot \<noteq> EB_LEAF then
        (case eb_untag troot EB_NODE of
           Some r \<Rightarrow> descend h side (rd_b h r side)
         | None \<Rightarrow> Some (Inl Invalid_Pointer))
      else
        (case eb_untag troot EB_LEAF of
           Some (Branches a) \<Rightarrow> Some (Inr a)
         | _ \<Rightarrow> Some (Inl Invalid_Pointer)))"

text \<open>
  Modelled from the spec: \<^verbatim>\<open>eb_walk_down\<close> of \<^verbatim>\<open>ebtree.h\<close>, which is not among the sources.
  Section 4.1 describes the walk of first and last: from the starting link follow the
  given side until a leaf-tagged link is reached, and return the record that owns the leaf.
\<close>

definition eb_walk_down :: "heap \<Rightarrow> eb_troot \<Rightarrow> bool \<Rightarrow> (fault + addr option) option" where
  "eb_walk_down h start side = map_option (map_sum id Some) (descend h side start)"

section \<open>Lookups\<close>

text \<open>\<^verbatim>\<open>eb128_lookup\<close>: the descent loop, then the function.\<close>

partial_function (option) eb128_lookup_loop ::
  "heap \<Rightarrow> u128 \<Rightarrow> eb_troot \<Rightarrow> (fault + addr option) option" where
  "eb128_lookup_loop h x troot =
     (if eb_gettag troot = EB_LEAF then
        (case eb_untag troot EB_LEAF of
           Some (Branches a) \<Rightarrow>
             if key (nodes h a) = x then Some (Inr (Some a)) else Some (Inr None)
         | _ \<Rightarrow> Some (Inl Invalid_Pointer))
      else
        (case eb_untag troot EB_NODE of
           Some (Branches a) \<Rightarrow>
             (let y = key (nodes h a) XOR x in
              if y = 0 then
                (if node_bit (nodes h a) < 0 then
                   map_option (map_sum id Some) (descend h EB_LEFT (branches (nodes h a) EB_LEFT))
                 else Some (Inr (Some a)))
              else if \<not> valid_shift (node_bit (nodes h a)) then Some (Inl Undefined_Shift)
              else if EB_NODE_BRANCHES \<le> shr y (node_bit (nodes h a)) then Some (Inr None)
              else
                eb128_lookup_loop h x
                  (branches (nodes h a)
                     (shr x (node_bit (nodes h a)) AND EB_NODE_BRANCH_MASK = 1)))
         | _ \<Rightarrow> Some (Inl Invalid_Pointer)))"

definition eb128_lookup :: "heap \<Rightarrow> u128 \<Rightarrow> (fault + addr option) option" where
  "eb128_lookup h x =
     (let troot = tree_root h EB_LEFT in
      if troot = NULL then Some (Inr None) else eb128_lookup_loop h x troot)"

text \<open>
  \<^verbatim>\<open>1ULL << 127\<close>, the mask of the signed variants. The operand is an
  \<^verbatim>\<open>unsigned long long\<close>, 64 bits wide, and so is the result: the shift is evaluated in
  64 bits, where the bit pushed 127 places is lost. The 64-bit value is then converted
  to 128 bits for the exclusive or with the key.
\<close>

definition sign_mask :: u64 where
  "sign_mask = push_bit 127 1"

text \<open>\<^verbatim>\<open>eb128i_lookup\<close>: the same descent, branching on \<^verbatim>\<open>key = x ^ (1ULL << 127)\<close>.\<close>

partial_function (option) eb128i_lookup_loop ::
  "heap \<Rightarrow> u128 \<Rightarrow> u128 \<Rightarrow> eb_troot \<Rightarrow> (fault + addr option) option" where
  "eb128i_lookup_loop h x k troot =
     (if eb_gettag troot = EB_LEAF then
        (case eb_untag troot EB_LEAF of
           Some (Branches a) \<Rightarrow>
             if key (nodes h a) = x then Some (Inr (Some a)) else Some (Inr None)
         | _ \<Rightarrow> Some (Inl Invalid_Pointer))
      else
        (case eb_untag troot EB_NODE of
           Some (Branches a) \<Rightarrow>
             (let y = key (nodes h a) XOR x in
              if y = 0 then
                (if node_bit (nodes h a) < 0 then
                   map_option (map_sum id Some) (descend h EB_LEFT (branches (nodes h a) EB_LEFT))
                 else Some (Inr (Some a)))
              else if \<not> valid_shift (node_bit (nodes h a)) then Some (Inl Undefined_Shift)
              else if EB_NODE_BRANCHES \<le> shr y (node_bit (nodes h a)) then Some (Inr None)
              else
                eb128i_lookup_loop h x k
                  (branches (nodes h a)
                     (shr k (node_bit (nodes h a)) AND EB_NODE_BRANCH_MASK = 1)))
         | _ \<Rightarrow> Some (Inl Invalid_Pointer)))"

definition eb128i_lookup :: "heap \<Rightarrow> u128 \<Rightarrow> (fault + addr option) option" where
  "eb128i_lookup h x =
     (let k = x XOR ucast sign_mask; troot = tree_root h EB_LEFT in
      if troot = NULL then Some (Inr None) else eb128i_lookup_loop h x k troot)"

text \<open>
  \<^verbatim>\<open>eb128_lookup_le\<close>. The code after the descent loop climbs from a parent link: while
  the link says left it moves to the parent's own parent, stopping with no result at the
  tree root (whose right branch is null); from the first link that says right it takes
  the rightmost leaf below the parent's left branch.
\<close>

partial_function (option) eb128_lookup_le_climb ::
  "heap \<Rightarrow> eb_troot \<Rightarrow> (fault + addr option) option" where
  "eb128_lookup_le_climb h troot =
     (if eb_gettag troot = EB_LEFT then
        (case eb_untag troot EB_LEFT of
           None \<Rightarrow> Some (Inl Invalid_Pointer)
         | Some r \<Rightarrow>
             if eb_clrtag (rd_b h r EB_RGHT) = None then Some (Inr None)
             else
               (case r of
                  Branches a \<Rightarrow> eb128_lookup_le_climb h (node_p (nodes h a))
                | Root \<Rightarrow> Some (Inl Invalid_Pointer)))
      else
        (case eb_untag troot EB_RGHT of
           None \<Rightarrow> Some (Inl Invalid_Pointer)
         | Some r \<Rightarrow> eb_walk_down h (rd_b h r EB_LEFT) EB_RGHT))"

partial_function (option) eb128_lookup_le_loop ::
  "heap \<Rightarrow> u128 \<Rightarrow> eb_troot \<Rightarrow> (fault + addr option) option" where
  "eb128_lookup_le_loop h x troot =
     (if eb_gettag troot = EB_LEAF then
        (case eb_untag troot EB_LEAF of
           Some (Branches a) \<Rightarrow>
             if key (nodes h a) \<le> x then Some (Inr (Some a))
             else eb128_lookup_le_climb h (leaf_p (nodes h a))
         | _ \<Rightarrow> Some (Inl Invalid_Pointer))
      else
        (case eb_untag troot EB_NODE of
           Some (Branches a) \<Rightarrow>
             if node_bit (nodes h a) < 0 then
               (if key (nodes h a) \<le> x then
                  map_option (map_sum id Some) (descend h EB_RGHT (branches (nodes h a) EB_RGHT))
                else eb128_lookup_le_climb h (node_p (nodes h a)))
             else if \<not> valid_shift (node_bit (nodes h a)) then Some (Inl Undefined_Shift)
             else if EB_NODE_BRANCHES \<le> shr (x XOR key (nodes h a)) (node_bit (nodes h a)) then
               (if shr (key (nodes h a)) (node_bit (nodes h a)) < shr x (node_bit (nodes h a)) then
                  eb_walk_down h (branches (nodes h a) EB_RGHT) EB_RGHT
                else eb128_lookup_le_climb h (node_p (nodes h a)))
             else
               eb128_lookup_le_loop h x
                 (branches (nodes h a)
                    (shr x (node_bit (nodes h a)) AND EB_NODE_BRANCH_MASK = 1))
         | _ \<Rightarrow> Some (Inl Invalid_Pointer)))"

definition eb128_lookup_le :: "heap \<Rightarrow> u128 \<Rightarrow> (fault + addr option) option" where
  "eb128_lookup_le h x =
     (let troot = tree_root h EB_LEFT in
      if troot = NULL then Some (Inr None) else eb128_lookup_le_loop h x troot)"

text \<open>
  \<^verbatim>\<open>eb128_lookup_ge\<close>, the mirror image: the climb follows parent links while they say
  right, then takes the leftmost leaf below the right branch of the parent reached, or
  nothing when that branch is null (the tree root).
\<close>

partial_function (option) eb128_lookup_ge_climb ::
  "heap \<Rightarrow> eb_troot \<Rightarrow> (fault + addr option) option" where
  "eb128_lookup_ge_climb h troot =
     (if eb_gettag troot \<noteq> EB_LEFT then
        (case eb_untag troot EB_RGHT of
           Some (Branches a) \<Rightarrow> eb128_lookup_ge_climb h (node_p (nodes h a))
         | _ \<Rightarrow> Some (Inl Invalid_Pointer))
      else
        (case eb_untag troot EB_LEFT of
           None \<Rightarrow> Some (Inl Invalid_Pointer)
         | Some r \<Rightarrow>
             if eb_clrtag (rd_b h r EB_RGHT) = None then Some (Inr None)
             else eb_walk_down h (rd_b h r EB_RGHT) EB_LEFT))"

partial_function (option) eb128_lookup_ge_loop ::
  "heap \<Rightarrow> u128 \<Rightarrow> eb_troot \<Rightarrow> (fault + addr option) option" where
  "eb128_lookup_ge_loop h x troot =
     (if eb_gettag troot = EB_LEAF then
        (case eb_untag troot EB_LEAF of
           Some (Branches a) \<Rightarrow>
             if x \<le> key (nodes h a) then Some (Inr (Some a))
             else eb128_lookup_ge_climb h (leaf_p (nodes h a))
         | _ \<Rightarrow> Some (Inl Invalid_Pointer))
      else
        (case eb_untag troot EB_NODE of
           Some (Branches a) \<Rightarrow>
             if node_bit (nodes h a) < 0 then
               (if x \<le> key (nodes h a) then
                  map_option (map_sum id Some) (descend h EB_LEFT (branches (nodes h a) EB_LEFT))
                else eb128_lookup_ge_climb h (node_p (nodes h a)))
             else if \<not> valid_shift (node_bit (nodes h a)) then Some (Inl Undefined_Shift)
             else if EB_NODE_BRANCHES \<le> shr (x XOR key (nodes h a)) (node_bit (nodes h a)) then
               (if shr x (node_bit (nodes h a)) < shr (key (nodes h a)) (node_bit (nodes h a)) then
                  eb_walk_down h (branches (nodes h a) EB_LEFT) EB_LEFT
                else eb128_lookup_ge_climb h (node_p (nodes h a)))
             else
               eb128_lookup_ge_loop h x
                 (branches (nodes h a)
                    (shr x (node_bit (nodes h a)) AND EB_NODE_BRANCH_MASK = 1))
         | _ \<Rightarrow> Some (Inl Invalid_Pointer)))"

definition eb128_lookup_ge :: "heap \<Rightarrow> u128 \<Rightarrow> (fault + addr option) option" where
  "eb128_lookup_ge h x =
     (let troot = tree_root h EB_LEFT in
      if troot = NULL then Some (Inr None) else eb128_lookup_ge_loop h x troot)"

section \<open>Insertion\<close>

text \<open>
  The branch taken while walking down past a node with bit \<open>old_node_bit\<close>. The source
  has two versions, chosen by the preprocessor: a single shift of the 128-bit key when
  \<^verbatim>\<open>BITS_PER_LONG >= 128\<close>, and otherwise a computation in the 32-bit variable
  \<^verbatim>\<open>side\<close>, which takes the low half of the key, shifts it, and for a bit of 32 or more
  takes \<^verbatim>\<open>newkey >> 32\<close> (truncated to 32 bits) shifted by the low five bits of the
  position. In the second version the first shift is by 32 or more exactly when its
  result is overwritten. \<^verbatim>\<open>BITS_PER_LONG\<close> comes from a header that is not among the
  sources and is a parameter of the model.
\<close>

definition side_single :: "u128 \<Rightarrow> int \<Rightarrow> u32" where
  "side_single newkey old_node_bit = ucast (shr newkey old_node_bit AND EB_NODE_BRANCH_MASK)"

definition side_halves :: "u128 \<Rightarrow> int \<Rightarrow> u32" where
  "side_halves newkey old_node_bit =
     (let side = (ucast newkey :: u32);
          side = drop_bit (nat old_node_bit) side;
          side = (if 32 \<le> old_node_bit
                  then drop_bit (nat (old_node_bit AND 31)) (ucast (drop_bit 32 newkey) :: u32)
                  else side)
      in side AND ucast EB_NODE_BRANCH_MASK)"

definition branch_side :: "nat \<Rightarrow> u128 \<Rightarrow> int \<Rightarrow> u32" where
  "branch_side bits_per_long newkey old_node_bit =
     (if 128 \<le> bits_per_long then side_single newkey old_node_bit
      else side_halves newkey old_node_bit)"

text \<open>
  Modelled from the spec: \<^verbatim>\<open>eb_insert_dup\<close> of \<^verbatim>\<open>ebtree.c\<close>, which is not among the
  sources. Section 4.1: the new record is attached to the duplicate subtree rooted by
  \<open>sub\<close> and becomes its rightmost leaf; the glossary gives every duplicate sentinel the
  bit -1. The new record's node part takes the place of \<open>sub\<close> below the parent of
  \<open>sub\<close>, with the old subtree on its left branch and its own leaf on its right branch.
\<close>

definition eb_insert_dup :: "heap \<Rightarrow> addr \<Rightarrow> addr \<Rightarrow> fault + heap \<times> addr" where
  "eb_insert_dup h sub new =
     (let new_left = eb_dotag (Branches new) EB_LEFT;
          new_rght = eb_dotag (Branches new) EB_RGHT;
          new_leaf = eb_dotag (Branches new) EB_LEAF;
          parent = node_p (nodes h sub)
      in case eb_clrtag parent of
           None \<Rightarrow> Inl Invalid_Pointer
         | Some head \<Rightarrow>
             (let h1 = set_bit h new (- 1);
                  h2 = wr_b h1 head (eb_gettag parent) (eb_dotag (Branches new) EB_NODE);
                  h3 = set_node_p h2 new parent;
                  h4 = set_leaf_p h3 new new_rght;
                  h5 = set_node_p h4 sub new_left;
                  h6 = wr_b h5 (Branches new) EB_LEFT (eb_dotag (Branches sub) EB_NODE);
                  h7 = wr_b h6 (Branches new) EB_RGHT new_leaf
              in Inr (h7, new)))"

text \<open>
  The end of \<^verbatim>\<open>eb128_insert\<close> and \<^verbatim>\<open>eb128i_insert\<close>, after the descent loop: the new node
  gets its bit from the two keys and is linked below \<^verbatim>\<open>root->b[side]\<close>.
\<close>

definition insert_link :: "heap \<Rightarrow> addr \<Rightarrow> addr \<Rightarrow> eb_root_ptr \<Rightarrow> u32 \<Rightarrow> heap \<times> addr" where
  "insert_link h new old root side =
     (let h1 = set_bit h new (fls128 (key_of h new XOR key_of h old) - EB_NODE_BITS);
          h2 = wr_b h1 root (side = 1) (eb_dotag (Branches new) EB_NODE)
      in (h2, new))"

text \<open>
  The body of the descent loop when \<^verbatim>\<open>troot\<close> is a leaf link to \<open>old\<close>. The two insertion
  functions differ here only in the comparison of the keys, unsigned in \<^verbatim>\<open>eb128_insert\<close>
  and signed in \<^verbatim>\<open>eb128i_insert\<close>; it is the parameter \<open>lt\<close>.
\<close>

definition insert_at_leaf ::
  "(u128 \<Rightarrow> u128 \<Rightarrow> bool) \<Rightarrow> heap \<Rightarrow> addr \<Rightarrow> eb_troot \<Rightarrow> eb_root_ptr \<Rightarrow> u32 \<Rightarrow> addr
     \<Rightarrow> heap \<times> addr" where
  "insert_at_leaf lt h new root_right root side old =
     (let new_left = eb_dotag (Branches new) EB_LEFT;
          new_rght = eb_dotag (Branches new) EB_RGHT;
          new_leaf = eb_dotag (Branches new) EB_LEAF;
          old_leaf = eb_dotag (Branches old) EB_LEAF;
          h1 = set_node_p h new (leaf_p (nodes h old))
      in if lt (key_of h1 new) (key_of h1 old) then
           (let h2 = set_leaf_p h1 new new_left;
                h3 = set_leaf_p h2 old new_rght;
                h4 = wr_b h3 (Branches new) EB_LEFT new_leaf;
                h5 = wr_b h4 (Branches new) EB_RGHT old_leaf
            in insert_link h5 new old root side)
         else if key_of h1 new = key_of h1 old \<and> eb_gettag root_right then (h1, old)
         else
           (let h2 = set_leaf_p h1 old new_left;
                h3 = set_leaf_p h2 new new_rght;
                h4 = wr_b h3 (Branches new) EB_LEFT old_leaf;
                h5 = wr_b h4 (Branches new) EB_RGHT new_leaf
            in if key_of h5 new = key_of h5 old then
                 (let h6 = set_bit h5 new (- 1);
                      h7 = wr_b h6 root (side = 1) (eb_dotag (Branches new) EB_NODE)
                  in (h7, new))
               else insert_link h5 new old root side))"

text \<open>The body of the loop when the descent stops above the node \<open>old\<close>.\<close>

definition insert_above_node ::
  "(u128 \<Rightarrow> u128 \<Rightarrow> bool) \<Rightarrow> heap \<Rightarrow> addr \<Rightarrow> eb_root_ptr \<Rightarrow> u32 \<Rightarrow> addr
     \<Rightarrow> fault + heap \<times> addr" where
  "insert_above_node lt h new root side old =
     (let new_left = eb_dotag (Branches new) EB_LEFT;
          new_rght = eb_dotag (Branches new) EB_RGHT;
          new_leaf = eb_dotag (Branches new) EB_LEAF;
          old_node = eb_dotag (Branches old) EB_NODE;
          h1 = set_node_p h new (node_p (nodes h old))
      in if lt (key_of h1 new) (key_of h1 old) then
           (let h2 = set_leaf_p h1 new new_left;
                h3 = set_node_p h2 old new_rght;
                h4 = wr_b h3 (Branches new) EB_LEFT new_leaf;
                h5 = wr_b h4 (Branches new) EB_RGHT old_node
            in Inr (insert_link h5 new old root side))
         else if lt (key_of h1 old) (key_of h1 new) then
           (let h2 = set_node_p h1 old new_left;
                h3 = set_leaf_p h2 new new_rght;
                h4 = wr_b h3 (Branches new) EB_LEFT old_node;
                h5 = wr_b h4 (Branches new) EB_RGHT new_leaf
            in Inr (insert_link h5 new old root side))
         else eb_insert_dup h1 old new)"

text \<open>
  The descent loop. Its variables are \<^verbatim>\<open>root\<close>, \<^verbatim>\<open>side\<close> and \<^verbatim>\<open>troot\<close>; nothing is written
  before the loop is left.
\<close>

partial_function (option) insert_loop ::
  "(u128 \<Rightarrow> u128 \<Rightarrow> bool) \<Rightarrow> nat \<Rightarrow> heap \<Rightarrow> addr \<Rightarrow> eb_troot \<Rightarrow> u128
     \<Rightarrow> eb_root_ptr \<Rightarrow> u32 \<Rightarrow> eb_troot \<Rightarrow> (fault + heap \<times> addr) option" where
  "insert_loop lt bits_per_long h new root_right newkey root side troot =
     (if eb_gettag troot = EB_LEAF then
        (case eb_untag troot EB_LEAF of
           Some (Branches old) \<Rightarrow> Some (Inr (insert_at_leaf lt h new root_right root side old))
         | _ \<Rightarrow> Some (Inl Invalid_Pointer))
      else
        (case eb_untag troot EB_NODE of
           Some (Branches old) \<Rightarrow>
             (let old_node_bit = node_bit (nodes h old) in
              if old_node_bit < 0 then Some (insert_above_node lt h new root side old)
              else if \<not> valid_shift old_node_bit then Some (Inl Undefined_Shift)
              else if EB_NODE_BRANCHES \<le> shr (key_of h new XOR key_of h old) old_node_bit then
                Some (insert_above_node lt h new root side old)
              else
                (let side' = branch_side bits_per_long newkey old_node_bit in
                 insert_loop lt bits_per_long h new root_right newkey (Branches old) side'
                   (rd_b h (Branches old) (side' = 1))))
         | _ \<Rightarrow> Some (Inl Invalid_Pointer)))"

definition insert_empty :: "heap \<Rightarrow> addr \<Rightarrow> heap \<times> addr" where
  "insert_empty h new =
     (let h1 = wr_b h Root EB_LEFT (eb_dotag (Branches new) EB_LEAF);
          h2 = set_leaf_p h1 new (eb_dotag Root EB_LEFT);
          h3 = set_node_p h2 new NULL
      in (h3, new))"

definition eb128_insert :: "nat \<Rightarrow> heap \<Rightarrow> addr \<Rightarrow> (fault + heap \<times> addr) option" where
  "eb128_insert bits_per_long h new =
     (let troot = tree_root h EB_LEFT;
          root_right = tree_root h EB_RGHT
      in if troot = NULL then Some (Inr (insert_empty h new))
         else insert_loop (<) bits_per_long h new root_right (key_of h new) Root 0 troot)"

definition eb128i_insert :: "nat \<Rightarrow> heap \<Rightarrow> addr \<Rightarrow> (fault + heap \<times> addr) option" where
  "eb128i_insert bits_per_long h new =
     (let troot = tree_root h EB_LEFT;
          root_right = tree_root h EB_RGHT
      in if troot = NULL then Some (Inr (insert_empty h new))
         else insert_loop (\<lambda>a b. sint a < sint b) bits_per_long h new root_right
                (key_of h new XOR ucast sign_mask) Root 0 troot)"

section \<open>Building trees and reading them\<close>

text \<open>
  An empty root (its left branch null, the uniqueness flag in the tag of its right
  branch) over a store of unlinked records whose keys are given by \<open>ks\<close>.
\<close>

definition empty_root :: "bool \<Rightarrow> bool \<Rightarrow> eb_troot" where
  "empty_root unique s = (if s = EB_RGHT then Troot None unique else NULL)"

definition fresh_node :: "u128 \<Rightarrow> eb128_node" where
  "fresh_node k = \<lparr>branches = (\<lambda>s. NULL), node_p = NULL, leaf_p = NULL, node_bit = 0, key = k\<rparr>"

definition fresh_heap :: "bool \<Rightarrow> (addr \<Rightarrow> u128) \<Rightarrow> heap" where
  "fresh_heap unique ks = \<lparr>tree_root = empty_root unique, nodes = (\<lambda>a. fresh_node (ks a))\<rparr>"

text \<open>Inserting the records at the given addresses one after the other.\<close>

fun insert_all ::
  "(heap \<Rightarrow> addr \<Rightarrow> (fault + heap \<times> addr) option) \<Rightarrow> heap \<Rightarrow> addr list \<Rightarrow> heap option" where
  "insert_all ins h [] = Some h"
| "insert_all ins h (a # as) =
     (case ins h a of Some (Inr (h', r)) \<Rightarrow> insert_all ins h' as | _ \<Rightarrow> None)"

text \<open>
  The leaves below a link, from left to right: the order in which a traversal with
  first and next visits the records of a well-linked tree.
\<close>

partial_function (option) leaves_below :: "heap \<Rightarrow> eb_troot \<Rightarrow> addr list option" where
  "leaves_below h troot =
     (if eb_gettag troot = EB_LEAF then
        (case eb_untag troot EB_LEAF of Some (Branches a) \<Rightarrow> Some [a] | _ \<Rightarrow> None)
      else
        (case eb_untag troot EB_NODE of
           Some (Branches a) \<Rightarrow>
             Option.bind (leaves_below h (branches (nodes h a) EB_LEFT)) (\<lambda>ls.
             Option.bind (leaves_below h (branches (nodes h a) EB_RGHT)) (\<lambda>rs.
             Some (ls @ rs)))
         | _ \<Rightarrow> None))"

definition inorder :: "heap \<Rightarrow> addr list option" where
  "inorder h =
     (if tree_root h EB_LEFT = NULL then Some [] else leaves_below h (tree_root h EB_LEFT))"

section \<open>The pointer-keyed tree\<close>

text \<open>
  \<^verbatim>\<open>ebpttree.c\<close> forwards to the 32-bit and the 64-bit scalar trees. Those are declared in
  \<^verbatim>\<open>eb32tree.h\<close> and \<^verbatim>\<open>eb64tree.h\<close>; their bodies are not among the sources, so they are
  parameters of the model, over any representation \<open>'s\<close> of the memory they work on. A
  pointer is a word whose width is the address width; a cast between pointers to node
  records leaves the address as it is.
\<close>

record 's scalar_ops =
  eb32_lookup :: "'s \<Rightarrow> u32 \<Rightarrow> addr option"
  eb32_lookup_le :: "'s \<Rightarrow> u32 \<Rightarrow> addr option"
  eb32_lookup_ge :: "'s \<Rightarrow> u32 \<Rightarrow> addr option"
  eb32_insert :: "'s \<Rightarrow> addr \<Rightarrow> 's \<times> addr"
  eb64_lookup :: "'s \<Rightarrow> u64 \<Rightarrow> addr option"
  eb64_lookup_le :: "'s \<Rightarrow> u64 \<Rightarrow> addr option"
  eb64_lookup_ge :: "'s \<Rightarrow> u64 \<Rightarrow> addr option"
  eb64_insert :: "'s \<Rightarrow> addr \<Rightarrow> 's \<times> addr"

definition sizeof_ptr :: "'p::len word \<Rightarrow> nat" where
  "sizeof_ptr x = LENGTH('p) div 8"

definition ebpt_lookup :: "'s scalar_ops \<Rightarrow> 's \<Rightarrow> 'p::len word \<Rightarrow> addr option" where
  "ebpt_lookup ops root x =
     (if sizeof_ptr x = 4 then eb32_lookup ops root (ucast x)
      else eb64_lookup ops root (ucast x))"

definition ebpt_lookup_le :: "'s scalar_ops \<Rightarrow> 's \<Rightarrow> 'p::len word \<Rightarrow> addr option" where
  "ebpt_lookup_le ops root x =
     (if sizeof_ptr x = 4 then eb32_lookup_le ops root (ucast x)
      else eb64_lookup_le ops root (ucast x))"

definition ebpt_lookup_ge :: "'s scalar_ops \<Rightarrow> 's \<Rightarrow> 'p::len word \<Rightarrow> addr option" where
  "ebpt_lookup_ge ops root x =
     (if sizeof_ptr x = 4 then eb32_lookup_ge ops root (ucast x)
      else eb64_lookup_ge ops root (ucast x))"

text \<open>
  \<^verbatim>\<open>ebpt_insert\<close> takes no key: the address width is that of the pointers stored in the
  tree, given here by a pointer \<open>x\<close> of that type.
\<close>

definition ebpt_insert :: "'s scalar_ops \<Rightarrow> 'p::len word \<Rightarrow> 's \<Rightarrow> addr \<Rightarrow> 's \<times> addr" where
  "ebpt_insert ops x root new =
     (if sizeof_ptr x = 4 then eb32_insert ops root new
      else eb64_insert ops root new)"

section \<open>Well-formed trees\<close>

text \<open>
  The shape of a tree, as a ghost value: a leaf is the leaf part of the record at an
  address, an internal node is the node part of a record with its two subtrees. \<open>leaves\<close>
  lists the records of a tree from left to right.
\<close>

datatype tree = Leaf addr | Node addr tree tree

fun leaves :: "tree \<Rightarrow> addr list" where
  "leaves (Leaf a) = [a]"
| "leaves (Node a l r) = leaves l @ leaves r"

text \<open>
  \<open>linked h troot up t\<close>: in the store \<open>h\<close> the link \<open>troot\<close> leads to the tree \<open>t\<close>, whose
  top has the parent link \<open>up\<close>, and below it every child link and every parent link is
  the inverse of the other (invariant 4 of the data model).
\<close>

fun linked :: "heap \<Rightarrow> eb_troot \<Rightarrow> eb_troot \<Rightarrow> tree \<Rightarrow> bool" where
  "linked h troot up (Leaf a) =
     (troot = eb_dotag (Branches a) EB_LEAF \<and> leaf_p (nodes h a) = up)"
| "linked h troot up (Node a l r) =
     (troot = eb_dotag (Branches a) EB_NODE \<and> node_p (nodes h a) = up \<and>
      linked h (branches (nodes h a) EB_LEFT) (eb_dotag (Branches a) EB_LEFT) l \<and>
      linked h (branches (nodes h a) EB_RGHT) (eb_dotag (Branches a) EB_RGHT) r)"

text \<open>
  The way from a subtree up to the root: for each ancestor, its address, the side on
  which the subtree hangs, and the sibling subtree on the other side. At the root the
  right branch is null. \<open>before\<close> and \<open>after\<close> are the records to the left and to the right
  of the subtree.
\<close>

datatype frame = Frame addr bool tree

fun path_up :: "heap \<Rightarrow> eb_troot \<Rightarrow> frame list \<Rightarrow> bool" where
  "path_up h up [] = (up = eb_dotag Root EB_LEFT \<and> eb_clrtag (tree_root h EB_RGHT) = None)"
| "path_up h up (Frame a s sib # fs) =
     (up = eb_dotag (Branches a) s \<and>
      linked h (branches (nodes h a) (\<not> s)) (eb_dotag (Branches a) (\<not> s)) sib \<and>
      path_up h (node_p (nodes h a)) fs)"

fun before :: "frame list \<Rightarrow> addr list" where
  "before [] = []"
| "before (Frame a s sib # fs) = (if s = EB_RGHT then before fs @ leaves sib else before fs)"

fun after :: "frame list \<Rightarrow> addr list" where
  "after [] = []"
| "after (Frame a s sib # fs) = (if s = EB_LEFT then leaves sib @ after fs else after fs)"

text \<open>
  The keys (invariants 3 and 5 of the data model). Below an ordinary node with bit \<open>b\<close>
  every record agrees with the node's key above bit \<open>b\<close> and has bit \<open>b\<close> clear on the
  left and set on the right. Below a duplicate sentinel (negative bit) every record has
  the key of the sentinel.
\<close>

fun wf_keys :: "heap \<Rightarrow> tree \<Rightarrow> bool" where
  "wf_keys h (Leaf a) = True"
| "wf_keys h (Node a l r) =
     (if node_bit (nodes h a) < 0 then
        (\<forall>c \<in> set (leaves l @ leaves r). key_of h c = key_of h a)
      else
        node_bit (nodes h a) < 128 \<and>
        (\<forall>c \<in> set (leaves l).
           drop_bit (Suc (nat (node_bit (nodes h a)))) (key_of h c) =
             drop_bit (Suc (nat (node_bit (nodes h a)))) (key_of h a) \<and>
           \<not> bit (key_of h c) (nat (node_bit (nodes h a)))) \<and>
        (\<forall>c \<in> set (leaves r).
           drop_bit (Suc (nat (node_bit (nodes h a)))) (key_of h c) =
             drop_bit (Suc (nat (node_bit (nodes h a)))) (key_of h a) \<and>
           bit (key_of h c) (nat (node_bit (nodes h a)))) \<and>
        wf_keys h l \<and> wf_keys h r)"

text \<open>
  The record whose node part is an ordinary node is the first record with its key below
  that node: it was inserted when the tree did not hold the key, and later duplicates
  are placed to its right.
\<close>

fun wf_owner :: "heap \<Rightarrow> tree \<Rightarrow> bool" where
  "wf_owner h (Leaf a) = True"
| "wf_owner h (Node a l r) =
     (if node_bit (nodes h a) < 0 then True
      else List.find (\<lambda>c. key_of h c = key_of h a) (leaves l @ leaves r) = Some a \<and>
           wf_owner h l \<and> wf_owner h r)"

text \<open>A non-empty tree hangs on the left branch of the root, whose right branch is null.\<close>

definition well_formed :: "heap \<Rightarrow> tree \<Rightarrow> bool" where
  "well_formed h t =
     (linked h (tree_root h EB_LEFT) (eb_dotag Root EB_LEFT) t \<and>
      eb_clrtag (tree_root h EB_RGHT) = None \<and> wf_keys h t)"

text \<open>
  What the bounded lookups are to return, read off the records from left to right: the
  last record whose key is at most \<open>x\<close>, and the first whose key is at least \<open>x\<close>.
\<close>

definition last_opt :: "'a list \<Rightarrow> 'a option" where
  "last_opt xs = (if xs = [] then None else Some (last xs))"

definition hd_opt :: "'a list \<Rightarrow> 'a option" where
  "hd_opt xs = (if xs = [] then None else Some (hd xs))"

definition last_le :: "heap \<Rightarrow> u128 \<Rightarrow> addr list \<Rightarrow> addr option" where
  "last_le h x ls = List.find (\<lambda>a. key_of h a \<le> x) (rev ls)"

definition first_ge :: "heap \<Rightarrow> u128 \<Rightarrow> addr list \<Rightarrow> addr option" where
  "first_ge h x ls = List.find (\<lambda>a. x \<le> key_of h a) ls"

section \<open>Concrete stores\<close>

text \<open>
  The keys of the records of the stores on which the operations are evaluated below;
  the record at address \<open>a\<close> has the \<open>a\<close>-th key of the list. The second key of
  \<open>keys_signed\<close> is the two's-complement representation of -1.
\<close>

definition keys_signed :: "addr \<Rightarrow> u128" where
  "keys_signed a = [0, 340282366920938463463374607431768211455, 1] ! a"

definition keys_high :: "addr \<Rightarrow> u128" where
  "keys_high a = [0, 2 ^ 64, 2 ^ 64 + 1] ! a"

definition keys_high_dup :: "addr \<Rightarrow> u128" where
  "keys_high_dup a = [0, 2 ^ 64, 2 ^ 64] ! a"

definition keys_dup :: "addr \<Rightarrow> u128" where
  "keys_dup a = [4, 4] ! a"

text \<open>Some scalar operations, to instantiate the pointer-keyed tree.\<close>

definition demo_ops :: "nat scalar_ops" where
  "demo_ops =
     \<lparr>eb32_lookup = (\<lambda>s k. Some (unat k)), eb32_lookup_le = (\<lambda>s k. None),
      eb32_lookup_ge = (\<lambda>s k. None), eb32_insert = (\<lambda>s a. (s, a)),
      eb64_lookup = (\<lambda>s k. Some (unat k + 1)), eb64_lookup_le = (\<lambda>s k. None),
      eb64_lookup_ge = (\<lambda>s k. None), eb64_insert = (\<lambda>s a. (Suc s, a))\<rparr>"

text \<open>
  A tree with duplicates: the keys 20, 10, 30, 20, 20 inserted in this order with the
  single-shift branch selection, and the shape that results.
\<close>

definition keys_demo :: "addr \<Rightarrow> u128" where
  "keys_demo a = [20, 10, 30, 20, 20] ! a"

definition demo_tree :: tree where
  "demo_tree = Node 1 (Leaf 1) (Node 2 (Node 4 (Node 3 (Leaf 0) (Leaf 3)) (Leaf 4)) (Leaf 2))"

definition demo_built :: "heap \<Rightarrow> bool" where
  "demo_built h =
     (insert_all (eb128_insert 128) (fresh_heap False keys_demo) [0, 1, 2, 3, 4] = Some h)"

section \<open>Insertion into well-formed trees\<close>

text \<open>
  The records whose node part is in use in a tree. A record takes part in a tree twice:
  with its leaf, and (all records but one) with its node part, somewhere above the leaf.
\<close>

fun node_addrs :: "tree \<Rightarrow> addr list" where
  "node_addrs (Leaf a) = []"
| "node_addrs (Node a l r) = a # node_addrs l @ node_addrs r"

text \<open>
  Two stores agree on a subtree when they give the same links, bits and keys to all of
  its records; \<open>agree_keys\<close> asks this of the bits and the keys only.
\<close>

definition agree_on :: "heap \<Rightarrow> heap \<Rightarrow> tree \<Rightarrow> bool" where
  "agree_on h h' t =
     ((\<forall>a \<in> set (leaves t). leaf_p (nodes h' a) = leaf_p (nodes h a)) \<and>
      (\<forall>a \<in> set (node_addrs t).
         node_p (nodes h' a) = node_p (nodes h a) \<and>
         (\<forall>s. branches (nodes h' a) s = branches (nodes h a) s) \<and>
         node_bit (nodes h' a) = node_bit (nodes h a)) \<and>
      (\<forall>a. key (nodes h' a) = key (nodes h a)))"

definition agree_keys :: "heap \<Rightarrow> heap \<Rightarrow> tree \<Rightarrow> bool" where
  "agree_keys h h' t =
     ((\<forall>a \<in> set (node_addrs t). node_bit (nodes h' a) = node_bit (nodes h a)) \<and>
      (\<forall>a. key (nodes h' a) = key (nodes h a)))"

text \<open>
  What an insertion below \<^verbatim>\<open>root->b[s]\<close> may write: the record \<open>new\<close>, the back-links of the
  records of the subtree \<open>t\<close> that hangs there, the branches of its nodes, and the link
  \<^verbatim>\<open>root->b[s]\<close> itself. Keys are never written, and no bit but that of \<open>new\<close>.
\<close>

definition modifies :: "heap \<Rightarrow> heap \<Rightarrow> addr \<Rightarrow> tree \<Rightarrow> eb_root_ptr \<Rightarrow> bool \<Rightarrow> bool" where
  "modifies h h' new t root s =
     ((\<forall>a. key (nodes h' a) = key (nodes h a)) \<and>
      (\<forall>a. a \<noteq> new \<longrightarrow> node_bit (nodes h' a) = node_bit (nodes h a)) \<and>
      (\<forall>a. a \<noteq> new \<longrightarrow> a \<notin> set (leaves t) \<longrightarrow> leaf_p (nodes h' a) = leaf_p (nodes h a)) \<and>
      (\<forall>a. a \<noteq> new \<longrightarrow> a \<notin> set (node_addrs t) \<longrightarrow> node_p (nodes h' a) = node_p (nodes h a)) \<and>
      (\<forall>r' s'. r' \<noteq> Branches new \<longrightarrow> (\<forall>a \<in> set (node_addrs t). r' \<noteq> Branches a) \<longrightarrow>
         (r' = root \<longrightarrow> s' \<noteq> s) \<longrightarrow> rd_b h' r' s' = rd_b h r' s'))"

text \<open>
  The new record has been put into the sequence of records after every record whose key
  is not greater than its own and before every record whose key is greater.
\<close>

definition placed :: "heap \<Rightarrow> addr \<Rightarrow> addr list \<Rightarrow> addr list \<Rightarrow> bool" where
  "placed h new ls ls' =
     (\<exists>ys zs. ls = ys @ zs \<and> ls' = ys @ new # zs \<and>
        (\<forall>y \<in> set ys. key_of h y \<le> key_of h new) \<and>
        (\<forall>z \<in> set zs. key_of h new < key_of h z))"

text \<open>
  A tree without duplicate sentinels, a tree whose internal nodes are all sentinels, and
  a tree in which no ordinary node lies below a sentinel.
\<close>

definition dup_free :: "heap \<Rightarrow> tree \<Rightarrow> bool" where
  "dup_free h t = (\<forall>a \<in> set (node_addrs t). 0 \<le> node_bit (nodes h a))"

definition only_dups :: "heap \<Rightarrow> tree \<Rightarrow> bool" where
  "only_dups h t = (\<forall>a \<in> set (node_addrs t). node_bit (nodes h a) < 0)"

fun dups_lowest :: "heap \<Rightarrow> tree \<Rightarrow> bool" where
  "dups_lowest h (Leaf a) = True"
| "dups_lowest h (Node a l r) =
     (if node_bit (nodes h a) < 0 then only_dups h l \<and> only_dups h r
      else dups_lowest h l \<and> dups_lowest h r)"

text \<open>
  The state after inserting \<open>new\<close> below \<^verbatim>\<open>root->b[s]\<close>, where the subtree \<open>t\<close> hung before and
  \<open>t'\<close> hangs afterwards; \<open>r\<close> is the record returned and \<open>u\<close> the uniqueness flag. When
  the tree is unique and holds the key, nothing reachable is written and a stored record
  with the key is returned; otherwise \<open>new\<close> is returned and has been placed among the
  records.
\<close>

definition ins_post ::
  "heap \<Rightarrow> heap \<Rightarrow> addr \<Rightarrow> addr \<Rightarrow> tree \<Rightarrow> tree \<Rightarrow> eb_root_ptr \<Rightarrow> bool \<Rightarrow> eb_troot \<Rightarrow> bool \<Rightarrow> bool" where
  "ins_post h h' r new t t' root s up u =
     (linked h' (rd_b h' root s) up t' \<and> wf_keys h' t' \<and> wf_owner h' t' \<and>
      modifies h h' new t root s \<and> (u \<longrightarrow> dup_free h' t') \<and>
      (dups_lowest h t \<longrightarrow> dups_lowest h' t') \<and>
      (if u \<and> (\<exists>c \<in> set (leaves t). key_of h c = key_of h new)
       then t' = t \<and> r \<in> set (leaves t) \<and> key_of h r = key_of h new \<and>
            (\<forall>a. a \<noteq> new \<longrightarrow> nodes h' a = nodes h a) \<and> tree_root h' = tree_root h
       else r = new \<and> placed h new (leaves t) (leaves t') \<and>
            set (node_addrs t') = insert new (set (node_addrs t)) \<and>
            (distinct (node_addrs t) \<longrightarrow> new \<notin> set (node_addrs t) \<longrightarrow> distinct (node_addrs t'))))"

text \<open>
  The bit of the node on top of a subtree, and the order of bits along every path: the
  bit of an ordinary node is greater than the bit of each child that is a node, and the
  children of a sentinel that are nodes are sentinels.
\<close>

fun top_bit :: "heap \<Rightarrow> tree \<Rightarrow> int option" where
  "top_bit h (Leaf a) = None"
| "top_bit h (Node a l r) = Some (node_bit (nodes h a))"

fun bit_order :: "heap \<Rightarrow> tree \<Rightarrow> bool" where
  "bit_order h (Leaf a) = True"
| "bit_order h (Node a l r) =
     ((\<forall>b. top_bit h l = Some b \<longrightarrow>
         (if 0 \<le> node_bit (nodes h a) then b < node_bit (nodes h a) else b < 0)) \<and>
      (\<forall>b. top_bit h r = Some b \<longrightarrow>
         (if 0 \<le> node_bit (nodes h a) then b < node_bit (nodes h a) else b < 0)) \<and>
      bit_order h l \<and> bit_order h r)"

text \<open>
  What every insertion keeps: the tree is well-formed, ordinary nodes are owned by the
  first record with their key, sentinels lie below the ordinary nodes, no record is
  linked twice, every node part in use belongs to a record of the tree, and a unique tree
  has no sentinel. \<open>holds h ls\<close> says that the store holds the records \<open>ls\<close>, in this
  order: the empty root for no records, a tree with these leaves otherwise.
\<close>

definition tree_inv :: "heap \<Rightarrow> tree \<Rightarrow> bool" where
  "tree_inv h t =
     (well_formed h t \<and> wf_owner h t \<and> dups_lowest h t \<and> distinct (leaves t) \<and> distinct (node_addrs t) \<and>
      set (node_addrs t) \<subseteq> set (leaves t) \<and>
      (eb_gettag (tree_root h EB_RGHT) \<longrightarrow> dup_free h t))"

definition holds :: "heap \<Rightarrow> addr list \<Rightarrow> bool" where
  "holds h ls =
     (eb_clrtag (tree_root h EB_RGHT) = None \<and>
      (if ls = [] then tree_root h EB_LEFT = NULL else \<exists>t. tree_inv h t \<and> leaves t = ls))"

section \<open>Evaluation\<close>

lemmas tag_defs = EB_LEFT_def EB_RGHT_def EB_NODE_def EB_LEAF_def EB_NODE_BITS_def
  EB_NODE_BRANCHES_def EB_NODE_BRANCH_MASK_def NULL_def eb_dotag_def

lemmas heap_defs = rd_b_def wr_b_def set_node_p_def set_leaf_p_def set_bit_def key_of_def
  fresh_heap_def fresh_node_def empty_root_def

lemmas insert_defs = insert_empty_def insert_loop.simps insert_at_leaf_def
  insert_above_node_def insert_link_def eb_insert_dup_def branch_side_def side_single_def
  side_halves_def valid_shift_def shr_def fls128_def

lemmas lookup_defs = eb128_lookup_def eb128_lookup_loop.simps
  eb128_lookup_le_def eb128_lookup_le_loop.simps eb128_lookup_le_climb.simps
  eb128_lookup_ge_def eb128_lookup_ge_loop.simps eb128_lookup_ge_climb.simps
  eb_walk_down_def descend.simps

lemma fls_nat_numeral [simp]:
  "fls_nat 0 = 0"
  "fls_nat 1 = 1"
  "fls_nat (Suc 0) = Suc 0"
  "fls_nat (numeral k) = Suc (fls_nat (numeral k div 2))"
  by (subst fls_nat.simps, simp add: fls_nat.simps [of 0])+

lemma two_le_one_u128 [simp]: "\<not> (2 :: u128) \<le> 1"
  by (simp add: word_le_nat_alt)

section \<open>Branch selection\<close>

lemma side_single_bit: "side_single k b = (if bit k (nat b) then 1 else 0)"
proof -
  have "drop_bit (nat b) k AND 1 = (if bit k (nat b) then 1 else 0)"
    by (simp add: and_one_eq bit_iff_odd_drop_bit mod_2_eq_odd)
  then show ?thesis
    by (simp add: side_single_def shr_def EB_NODE_BRANCH_MASK_def)
qed

text \<open>
  C3. The claim is that the two-halves computation of the branch side gives bit \<open>b\<close> of
  the key, as the single shift does, for every bit position from 0 to 127. At position 64
  and the key \<open>2 ^ 64\<close> it does not: the single shift gives 1, the bit of the key; the
  two-halves computation shifts the 32-bit truncation of \<^verbatim>\<open>newkey >> 32\<close> by \<open>64 AND 31 = 0\<close>
  and gives bit 32 of the key, which is 0.
\<close>

theorem C3_side_halves_wrong_at_64:
  "side_single (2 ^ 64) 64 = 1 \<and> side_halves (2 ^ 64) 64 = 0 \<and>
   branch_side 128 (2 ^ 64) 64 \<noteq> branch_side 64 (2 ^ 64) 64"
  by (simp add: side_single_def side_halves_def branch_side_def shr_def EB_NODE_BRANCH_MASK_def)

section \<open>Trees built with the two-halves branch selection\<close>

text \<open>
  C6. The claim is that in every tree built by \<^verbatim>\<open>eb128_insert\<close> the bit of an internal node
  is strictly greater than the bit of a child linked as a node. With the branch selection
  compiled when \<^verbatim>\<open>BITS_PER_LONG < 128\<close>, inserting the keys \<open>0\<close>, \<open>2 ^ 64\<close> and
  \<open>2 ^ 64 + 1\<close> in this order sends the third key to the left of the node with bit 64
  (its bit 64 is set), where it meets the leaf \<open>0\<close> and is given the bit 64 as well: the
  node of record 1, with bit 64, has the node of record 2, with bit 64, as its left child.
\<close>

theorem C6_child_bit_not_below_parent:
  "\<exists>h. insert_all (eb128_insert 64) (fresh_heap False keys_high) [0, 1, 2] = Some h \<and>
     tree_root h EB_LEFT = eb_dotag (Branches 1) EB_NODE \<and>
     branches (nodes h 1) EB_LEFT = eb_dotag (Branches 2) EB_NODE \<and>
     node_bit (nodes h 1) = 64 \<and> node_bit (nodes h 2) = 64"
  by (simp add: keys_high_def eb128_insert_def tag_defs heap_defs insert_defs Let_def)

text \<open>
  C4. The claim is that on a unique tree \<^verbatim>\<open>eb128_insert\<close> of a key that is stored
  returns the record that holds it and changes nothing. With the branch selection
  compiled when \<^verbatim>\<open>BITS_PER_LONG < 128\<close>, on the unique tree holding \<open>0\<close> and \<open>2 ^ 64\<close>
  (records 0 and 1) the insertion of record 2 with key \<open>2 ^ 64\<close> walks to the left of the
  node with bit 64, meets the leaf \<open>0\<close>, links the new record there and returns it.
\<close>

theorem C4_unique_insert_links_duplicate:
  "\<exists>h h'. insert_all (eb128_insert 64) (fresh_heap True keys_high_dup) [0, 1] = Some h \<and>
     eb_gettag (tree_root h EB_RGHT) \<and> inorder h = Some [0, 1] \<and>
     key_of h 1 = key_of h 2 \<and>
     eb128_insert 64 h 2 = Some (Inr (h', 2)) \<and> inorder h' = Some [0, 2, 1]"
  by (simp add: keys_high_dup_def eb128_insert_def tag_defs heap_defs insert_defs Let_def
      inorder_def leaves_below.simps)

text \<open>
  C7. The claim is that on a tree that accepts duplicates the insertion of a stored key
  makes the new record the rightmost leaf of the duplicates of that key, the new record
  becoming a sentinel with bit -1 on the first duplication, so that equal keys are
  visited in insertion order. With the branch selection compiled when
  \<^verbatim>\<open>BITS_PER_LONG < 128\<close>, on the tree holding \<open>0\<close> and \<open>2 ^ 64\<close> the insertion of a second
  record with key \<open>2 ^ 64\<close> gives it the bit 64, not -1, and places it before the first
  record with that key.
\<close>

theorem C7_duplicate_before_original:
  "\<exists>h h'. insert_all (eb128_insert 64) (fresh_heap False keys_high_dup) [0, 1] = Some h \<and>
     \<not> eb_gettag (tree_root h EB_RGHT) \<and> inorder h = Some [0, 1] \<and>
     key_of h 1 = key_of h 2 \<and>
     eb128_insert 64 h 2 = Some (Inr (h', 2)) \<and> inorder h' = Some [0, 2, 1] \<and>
     node_bit (nodes h' 2) = 64"
  by (simp add: keys_high_dup_def eb128_insert_def tag_defs heap_defs insert_defs Let_def
      inorder_def leaves_below.simps)

text \<open>
  C2. The claim is that on every tree \<^verbatim>\<open>eb128_lookup_le\<close> returns a record with the greatest
  stored key that is at most \<open>x\<close>, and \<^verbatim>\<open>eb128_lookup_ge\<close> a record with the least stored
  key that is at least \<open>x\<close>. On the tree built from \<open>0\<close>, \<open>2 ^ 64\<close> and \<open>2 ^ 64 + 1\<close> with
  the branch selection compiled when \<^verbatim>\<open>BITS_PER_LONG < 128\<close> the records are visited in
  the order \<open>0\<close>, \<open>2 ^ 64 + 1\<close>, \<open>2 ^ 64\<close>. For \<open>x = 2 ^ 64 + 1\<close>, which is stored,
  \<^verbatim>\<open>eb128_lookup_ge\<close> returns nothing and \<^verbatim>\<open>eb128_lookup_le\<close> returns the record with key
  \<open>2 ^ 64\<close>, which is not the greatest stored key that is at most \<open>x\<close>.
\<close>

theorem C2_bounded_lookups_miss:
  "\<exists>h. insert_all (eb128_insert 64) (fresh_heap False keys_high) [0, 1, 2] = Some h \<and>
      inorder h = Some [0, 2, 1] \<and>
      map (key_of h) [0, 2, 1] = [0, 2 ^ 64 + 1, 2 ^ 64] \<and>
      eb128_lookup_ge h (2 ^ 64 + 1) = Some (Inr None) \<and>
      eb128_lookup_le h (2 ^ 64 + 1) = Some (Inr (Some 1))"
  by (simp add: keys_high_def eb128_insert_def tag_defs heap_defs insert_defs Let_def
      lookup_defs inorder_def leaves_below.simps)

text \<open>
  C10. The claim is that on a tree that accepts duplicates \<^verbatim>\<open>eb128_lookup_le\<close> returns the
  duplicate inserted last, the rightmost leaf with the key, and \<^verbatim>\<open>eb128_lookup\<close> and
  \<^verbatim>\<open>eb128_lookup_ge\<close> the duplicate inserted first, the leftmost leaf with the key. On the
  tree built from \<open>0\<close>, \<open>2 ^ 64\<close> and \<open>2 ^ 64\<close> (records 0, 1 and 2) with the branch
  selection compiled when \<^verbatim>\<open>BITS_PER_LONG < 128\<close> the records are visited in the order
  0, 2, 1. For the key \<open>2 ^ 64\<close> all three lookups return record 1: \<^verbatim>\<open>eb128_lookup_le\<close>
  does not return the duplicate inserted last, record 2, and \<^verbatim>\<open>eb128_lookup\<close> and
  \<^verbatim>\<open>eb128_lookup_ge\<close> do not return the leftmost leaf with the key, which is record 2.
\<close>

theorem C10_same_record_for_duplicates:
  "\<exists>h. insert_all (eb128_insert 64) (fresh_heap False keys_high_dup) [0, 1, 2] = Some h \<and>
      \<not> eb_gettag (tree_root h EB_RGHT) \<and>
      inorder h = Some [0, 2, 1] \<and>
      map (key_of h) [0, 2, 1] = [0, 2 ^ 64, 2 ^ 64] \<and>
      eb128_lookup_le h (2 ^ 64) = Some (Inr (Some 1)) \<and>
      eb128_lookup h (2 ^ 64) = Some (Inr (Some 1)) \<and>
      eb128_lookup_ge h (2 ^ 64) = Some (Inr (Some 1))"
  by (simp add: keys_high_dup_def eb128_insert_def tag_defs heap_defs insert_defs Let_def
      lookup_defs inorder_def leaves_below.simps)

section \<open>The signed tree\<close>

lemma sign_mask_never_flips_bit_127:
  "bit (k XOR ucast (m :: u64)) 127 = bit (k :: u128) 127"
  by (auto simp: bit_simps dest: bit_imp_le_length)

text \<open>
  C1. The claim is that \<^verbatim>\<open>eb128i_insert\<close> flips bit 127 of the key before branching, so
  that records are in signed order from left to right. The mask \<^verbatim>\<open>1ULL << 127\<close> is a
  64-bit value and leaves the key as it is. Inserting \<open>0\<close>, \<open>-1\<close> and \<open>1\<close> in this
  order, with either branch selection, sends \<open>1\<close> to the side of \<open>-1\<close> below the node
  with bit 127: the records are visited in the order \<open>-1\<close>, \<open>1\<close>, \<open>0\<close>.
\<close>

theorem C1_signed_order_broken:
  "(\<forall>k :: u128. k XOR ucast sign_mask = k) \<and>
   (\<forall>bits_per_long.
      Option.bind (insert_all (eb128i_insert bits_per_long) (fresh_heap False keys_signed) [0, 1, 2])
        inorder = Some [1, 2, 0]) \<and>
   map (\<lambda>a. sint (keys_signed a)) [1, 2, 0] = [- 1, 1, 0]"
  by (simp add: sign_mask_def keys_signed_def eb128i_insert_def tag_defs heap_defs insert_defs
      inorder_def leaves_below.simps Let_def)

section \<open>Shifts by the bit of a duplicate sentinel\<close>

text \<open>
  C9. The claim is that during the descent of \<^verbatim>\<open>eb128_lookup\<close> every shift by a node's bit
  has a count that is not negative. On the tree that holds the key \<open>4\<close> twice, built by
  two insertions with either branch selection, the root links to the sentinel of record 1
  with bit -1; the lookup of \<open>5\<close> finds a key that differs there and evaluates
  \<^verbatim>\<open>y >> node->node.bit\<close> with the count -1.
\<close>

theorem C9_lookup_shifts_by_minus_one:
  "\<forall>bits_per_long.
     \<exists>h. insert_all (eb128_insert bits_per_long) (fresh_heap False keys_dup) [0, 1] = Some h \<and>
       tree_root h EB_LEFT = eb_dotag (Branches 1) EB_NODE \<and>
       node_bit (nodes h 1) = - 1 \<and> key_of h 1 \<noteq> 5 \<and>
       eb128_lookup h 5 = Some (Inl Undefined_Shift)"
  by (simp add: keys_dup_def eb128_insert_def tag_defs heap_defs insert_defs Let_def
      eb128_lookup_def eb128_lookup_loop.simps)

text \<open>
  C5. The claim is that \<^verbatim>\<open>eb128_lookup\<close> returns a record with the key when the key is
  stored and nothing otherwise. On the tree that holds the key \<open>4\<close> twice the lookup of
  \<open>5\<close>, which is not stored, shifts by -1 instead of returning nothing. And on the tree
  built from \<open>0\<close>, \<open>2 ^ 64\<close> and \<open>2 ^ 64 + 1\<close> with the branch selection compiled when
  \<^verbatim>\<open>BITS_PER_LONG < 128\<close>, the lookup of the stored key \<open>2 ^ 64 + 1\<close> returns nothing.
\<close>

theorem C5_lookup_misses:
  "(\<exists>h. insert_all (eb128_insert 64) (fresh_heap False keys_dup) [0, 1] = Some h \<and>
      inorder h = Some [0, 1] \<and> key_of h 0 \<noteq> 5 \<and> key_of h 1 \<noteq> 5 \<and>
      eb128_lookup h 5 = Some (Inl Undefined_Shift)) \<and>
   (\<exists>h. insert_all (eb128_insert 64) (fresh_heap False keys_high) [0, 1, 2] = Some h \<and>
      inorder h = Some [0, 2, 1] \<and> key_of h 2 = 2 ^ 64 + 1 \<and>
      eb128_lookup h (2 ^ 64 + 1) = Some (Inr None))"
  by (simp add: keys_dup_def keys_high_def eb128_insert_def tag_defs heap_defs insert_defs Let_def
      eb128_lookup_def eb128_lookup_loop.simps inorder_def leaves_below.simps)

section \<open>The pointer-keyed tree forwards to the scalar trees\<close>

text \<open>
  C8. Each operation of the pointer-keyed tree returns what the 32-bit scalar operation
  returns on the key converted to 32 bits when a pointer has 4 bytes, and what the 64-bit
  operation returns on the key converted to 64 bits otherwise; the insertion passes the
  node on unchanged. With 32-bit pointers the conversion to 32 bits keeps the value of
  the pointer, and with 64-bit pointers the conversion to 64 bits does.
\<close>

theorem C8_ebpt_forwards:
  fixes x :: "'p::len word"
  shows "(sizeof_ptr x = 4 \<longrightarrow>
           ebpt_lookup ops root x = eb32_lookup ops root (ucast x) \<and>
           ebpt_lookup_le ops root x = eb32_lookup_le ops root (ucast x) \<and>
           ebpt_lookup_ge ops root x = eb32_lookup_ge ops root (ucast x) \<and>
           ebpt_insert ops x root new = eb32_insert ops root new) \<and>
         (sizeof_ptr x \<noteq> 4 \<longrightarrow>
           ebpt_lookup ops root x = eb64_lookup ops root (ucast x) \<and>
           ebpt_lookup_le ops root x = eb64_lookup_le ops root (ucast x) \<and>
           ebpt_lookup_ge ops root x = eb64_lookup_ge ops root (ucast x) \<and>
           ebpt_insert ops x root new = eb64_insert ops root new) \<and>
         (LENGTH('p) = 32 \<longrightarrow> sizeof_ptr x = 4 \<and> unat (ucast x :: u32) = unat x) \<and>
         (LENGTH('p) = 64 \<longrightarrow> sizeof_ptr x = 8 \<and> unat (ucast x :: u64) = unat x)"
proof -
  have lt: "unat x < 2 ^ LENGTH('p)"
    by (rule unsigned_less)
  have "LENGTH('p) = 32 \<Longrightarrow> unat (ucast x :: u32) = unat x"
    using lt by (simp add: unsigned_ucast_eq take_bit_nat_eq_self_iff)
  moreover have "LENGTH('p) = 64 \<Longrightarrow> unat (ucast x :: u64) = unat x"
    using lt by (simp add: unsigned_ucast_eq take_bit_nat_eq_self_iff)
  ultimately show ?thesis
    by (simp add: ebpt_lookup_def ebpt_lookup_le_def ebpt_lookup_ge_def ebpt_insert_def
        sizeof_ptr_def)
qed

theorem C8_ebpt_forwards_witness:
  "sizeof_ptr (5 :: 32 word) = 4 \<and> ebpt_lookup demo_ops 0 (5 :: 32 word) = Some 5 \<and>
   sizeof_ptr (5 :: 64 word) \<noteq> 4 \<and> ebpt_lookup demo_ops 0 (5 :: 64 word) = Some 6 \<and>
   ebpt_insert demo_ops (5 :: 64 word) 0 7 = (1, 7)"
  using C8_ebpt_forwards [of "5 :: 32 word" demo_ops 0 7]
    C8_ebpt_forwards [of "5 :: 64 word" demo_ops 0 7]
  by (simp add: sizeof_ptr_def demo_ops_def)

section \<open>Bits of keys\<close>

lemma unat_drop: "unat (drop_bit n (w :: u128)) = unat w div 2 ^ n"
  by (simp add: unat_drop_bit_eq) (simp add: drop_bit_eq_div)

lemma bit_odd_unat: "bit (w :: u128) n = odd (unat w div 2 ^ n)"
proof -
  have "bit w n = bit (unat w) n"
    by (simp add: bit_unsigned_iff)
  then show ?thesis
    by (simp add: bit_iff_odd)
qed

lemma unat_drop_split:
  "unat (drop_bit n (w :: u128)) = 2 * unat (drop_bit (Suc n) w) + (if bit w n then 1 else 0)"
proof -
  define m where "m = unat w div 2 ^ n"
  have "unat w div 2 ^ Suc n = m div 2"
    unfolding m_def by (simp only: power_Suc2 div_mult2_eq)
  moreover have "m = 2 * (m div 2) + (if odd m then 1 else 0)"
    by presburger
  ultimately show ?thesis
    unfolding unat_drop bit_odd_unat m_def [symmetric] by simp
qed

lemma drop_bit_mono_word: "(c :: u128) \<le> x \<Longrightarrow> drop_bit n c \<le> drop_bit n x"
  by (simp add: word_le_nat_alt unat_drop div_le_mono)

lemma prefix_less:
  fixes c x :: u128
  assumes "drop_bit n c < drop_bit n x"
  shows "c < x"
  using assms drop_bit_mono_word [of x c n] by (meson not_le)

lemma same_prefix_bit_less:
  fixes c x :: u128
  assumes "drop_bit (Suc n) c = drop_bit (Suc n) x" "\<not> bit c n" "bit x n"
  shows "c < x"
proof -
  have c: "unat (drop_bit n c) = 2 * unat (drop_bit (Suc n) x) + 0"
    using unat_drop_split [of n c] assms(1,2) by (simp only: if_False)
  have x: "unat (drop_bit n x) = 2 * unat (drop_bit (Suc n) x) + 1"
    using unat_drop_split [of n x] assms(3) by (simp only: if_True)
  have "unat (drop_bit n c) < unat (drop_bit n x)"
    unfolding c x by linarith
  then have "drop_bit n c < drop_bit n x"
    by (simp only: word_less_nat_alt)
  then show ?thesis
    by (rule prefix_less)
qed

lemma xor_zero_iff: "(a XOR b = 0) = (a = (b :: u128))"
proof
  assume "a XOR b = 0"
  then have "(a XOR b) XOR b = b"
    by simp
  then show "a = b"
    by (simp add: xor.assoc)
next
  assume "a = b"
  then show "a XOR b = 0"
    by simp
qed

lemma xor_shift_small_iff:
  fixes x k :: u128
  shows "(drop_bit n (x XOR k) < 2) = (drop_bit (Suc n) x = drop_bit (Suc n) k)"
proof -
  have "unat (2 :: u128) = 2"
    by simp
  then have "(drop_bit n (x XOR k) < 2) = (unat (x XOR k) div 2 ^ n < 2)"
    by (simp only: word_less_nat_alt unat_drop)
  also have "\<dots> = (unat (x XOR k) div 2 ^ n div 2 = 0)"
    by (simp only: div_eq_0_iff) simp
  also have "\<dots> = (unat (x XOR k) div 2 ^ Suc n = 0)"
    by (simp only: power_Suc2 div_mult2_eq)
  also have "\<dots> = (unat (drop_bit (Suc n) (x XOR k)) = 0)"
    by (simp only: unat_drop)
  also have "\<dots> = (drop_bit (Suc n) (x XOR k) = 0)"
    by (simp only: unat_eq_0)
  also have "\<dots> = (drop_bit (Suc n) x XOR drop_bit (Suc n) k = 0)"
    by (simp only: drop_bit_xor)
  also have "\<dots> = (drop_bit (Suc n) x = drop_bit (Suc n) k)"
    by (simp only: xor_zero_iff)
  finally show ?thesis .
qed

lemma branch_bit: "(shr x b AND EB_NODE_BRANCH_MASK = 1) = bit (x :: u128) (nat b)"
  by (simp add: shr_def EB_NODE_BRANCH_MASK_def and_one_eq mod_2_eq_odd even_drop_bit_iff_not_bit)

lemma prefix_neq_cmp:
  fixes k x :: u128
  assumes "drop_bit (Suc n) k \<noteq> drop_bit (Suc n) x"
  shows "(drop_bit n k < drop_bit n x) = (drop_bit (Suc n) k < drop_bit (Suc n) x)"
proof -
  have "unat (drop_bit (Suc n) k) \<noteq> unat (drop_bit (Suc n) x)"
    using assms by (simp add: word_unat_eq_iff)
  then show ?thesis
    unfolding word_less_nat_alt unat_drop_split [of n k] unat_drop_split [of n x]
    by auto
qed

section \<open>Lists of records\<close>

lemma find_append:
  "List.find P (xs @ ys) = (case List.find P xs of Some a \<Rightarrow> Some a | None \<Rightarrow> List.find P ys)"
  by (induction xs) auto

lemma find_none: "(\<And>c. c \<in> set xs \<Longrightarrow> \<not> P c) \<Longrightarrow> List.find P xs = None"
  by (simp add: find_None_iff)

lemma find_all_hd: "(\<And>c. c \<in> set xs \<Longrightarrow> P c) \<Longrightarrow> xs \<noteq> [] \<Longrightarrow> List.find P xs = Some (hd xs)"
  by (cases xs) auto

lemma find_split:
  "List.find P ls = Some a \<Longrightarrow> \<exists>ys zs. ls = ys @ a # zs \<and> P a \<and> (\<forall>y \<in> set ys. \<not> P y)"
proof (induction ls)
  case Nil
  then show ?case by simp
next
  case (Cons b ls)
  show ?case
  proof (cases "P b")
    case True
    with Cons.prems have "b = a" by simp
    with True have "b # ls = [] @ a # ls \<and> P a \<and> (\<forall>y \<in> set []. \<not> P y)"
      by simp
    then show ?thesis by blast
  next
    case False
    with Cons obtain ys zs where "ls = ys @ a # zs" "P a" "\<forall>y \<in> set ys. \<not> P y"
      by auto
    with False have "b # ls = (b # ys) @ a # zs \<and> P a \<and> (\<forall>y \<in> set (b # ys). \<not> P y)"
      by simp
    then show ?thesis by blast
  qed
qed

lemma find_rev_split:
  assumes "List.find P (rev ls) = Some a"
  shows "\<exists>ys zs. ls = ys @ a # zs \<and> P a \<and> (\<forall>z \<in> set zs. \<not> P z)"
proof -
  from find_split [OF assms] obtain ys zs
    where r: "rev ls = ys @ a # zs" and a: "P a" and n: "\<forall>y \<in> set ys. \<not> P y"
    by blast
  from r have "ls = rev zs @ a # rev ys"
    by (simp add: rev_swap)
  with a n have "ls = rev zs @ a # rev ys \<and> P a \<and> (\<forall>z \<in> set (rev ys). \<not> P z)"
    by simp
  then show ?thesis by blast
qed

lemma find_hd_filter:
  "c \<in> set ls \<Longrightarrow> P c \<Longrightarrow> List.find P ls = Some (hd (filter P ls))"
  by (induction ls) auto

lemma sorted_const: "(\<And>c. c \<in> set xs \<Longrightarrow> f c = k) \<Longrightarrow> sorted (map f xs)"
  by (induction xs) auto

lemma last_le_all:
  assumes "\<And>c. c \<in> set ls \<Longrightarrow> key_of h c \<le> x" "ls \<noteq> []"
  shows "last_le h x ls = Some (last ls)"
  unfolding last_le_def using assms find_all_hd [of "rev ls" "\<lambda>a. key_of h a \<le> x"]
  by (simp add: hd_rev)

lemma last_le_none:
  assumes "\<And>c. c \<in> set ls \<Longrightarrow> \<not> key_of h c \<le> x"
  shows "last_le h x ls = None"
  unfolding last_le_def using assms by (simp add: find_None_iff)

lemma last_le_append:
  "last_le h x (ls @ rs) = (case last_le h x rs of Some a \<Rightarrow> Some a | None \<Rightarrow> last_le h x ls)"
  unfolding last_le_def by (simp add: find_append)

lemma first_ge_all:
  assumes "\<And>c. c \<in> set ls \<Longrightarrow> x \<le> key_of h c" "ls \<noteq> []"
  shows "first_ge h x ls = Some (hd ls)"
  unfolding first_ge_def using assms by (intro find_all_hd) auto

lemma first_ge_none:
  assumes "\<And>c. c \<in> set ls \<Longrightarrow> \<not> x \<le> key_of h c"
  shows "first_ge h x ls = None"
  unfolding first_ge_def using assms by (simp add: find_None_iff)

lemma first_ge_append:
  "first_ge h x (ls @ rs) = (case first_ge h x ls of Some a \<Rightarrow> Some a | None \<Rightarrow> first_ge h x rs)"
  unfolding first_ge_def by (simp add: find_append)

lemma last_le_Some:
  assumes "sorted (map (key_of h) ls)" "last_le h x ls = Some a"
  shows "a \<in> set ls \<and> key_of h a \<le> x \<and>
         (\<forall>c \<in> set ls. key_of h c \<le> x \<longrightarrow> key_of h c \<le> key_of h a) \<and>
         (\<exists>ys zs. ls = ys @ a # zs \<and> (\<forall>z \<in> set zs. x < key_of h z))"
proof -
  from assms(2) obtain ys zs where s: "ls = ys @ a # zs" and a: "key_of h a \<le> x"
    and z: "\<forall>z \<in> set zs. \<not> key_of h z \<le> x"
    unfolding last_le_def using find_rev_split [of "\<lambda>a. key_of h a \<le> x" ls a] by blast
  from assms(1) s have "\<forall>y \<in> set ys. key_of h y \<le> key_of h a"
    by (auto simp: sorted_append)
  with s a z show ?thesis
    by (auto simp: not_le)
qed

lemma last_le_None: "(last_le h x ls = None) = (\<forall>c \<in> set ls. x < key_of h c)"
  by (auto simp: last_le_def find_None_iff not_le)

lemma first_ge_Some:
  assumes "sorted (map (key_of h) ls)" "first_ge h x ls = Some a"
  shows "a \<in> set ls \<and> x \<le> key_of h a \<and>
         (\<forall>c \<in> set ls. x \<le> key_of h c \<longrightarrow> key_of h a \<le> key_of h c) \<and>
         (\<exists>ys zs. ls = ys @ a # zs \<and> (\<forall>y \<in> set ys. key_of h y < x))"
proof -
  from assms(2) obtain ys zs where s: "ls = ys @ a # zs" and a: "x \<le> key_of h a"
    and y: "\<forall>y \<in> set ys. \<not> x \<le> key_of h y"
    unfolding first_ge_def using find_split [of "\<lambda>a. x \<le> key_of h a" ls a] by blast
  from assms(1) s have "\<forall>z \<in> set zs. key_of h a \<le> key_of h z"
    by (auto simp: sorted_append)
  with s a y show ?thesis
    by (auto simp: not_le)
qed

lemma first_ge_None: "(first_ge h x ls = None) = (\<forall>c \<in> set ls. key_of h c < x)"
  by (auto simp: first_ge_def find_None_iff not_le)

section \<open>Walks on a linked tree\<close>

lemma leaves_nonempty [simp]: "leaves t \<noteq> []"
  by (induction t) auto

lemma linked_ptr: "linked h troot up t \<Longrightarrow> eb_clrtag troot \<noteq> None"
  by (cases t) (auto simp: eb_dotag_def)

lemma descend_linked:
  "linked h troot up t \<Longrightarrow>
   descend h side troot = Some (Inr (if side = EB_RGHT then last (leaves t) else hd (leaves t)))"
proof (induction t arbitrary: troot up)
  case (Leaf a)
  then show ?case
    by (subst descend.simps) (simp add: eb_dotag_def EB_LEAF_def)
next
  case (Node a l r)
  from Node.prems have t: "troot = eb_dotag (Branches a) EB_NODE"
    and l: "linked h (branches (nodes h a) EB_LEFT) (eb_dotag (Branches a) EB_LEFT) l"
    and r: "linked h (branches (nodes h a) EB_RGHT) (eb_dotag (Branches a) EB_RGHT) r"
    by simp_all
  show ?case
  proof (cases "side = EB_RGHT")
    case True
    with Node.IH(2) [OF r, of ] t show ?thesis
      by (subst descend.simps) (simp add: eb_dotag_def EB_LEAF_def EB_NODE_def rd_b_def)
  next
    case False
    then have s: "side = EB_LEFT" by (simp add: EB_LEFT_def EB_RGHT_def)
    with Node.IH(1) [OF l] t show ?thesis
      by (subst descend.simps) (simp add: eb_dotag_def EB_LEAF_def EB_NODE_def rd_b_def EB_LEFT_def EB_RGHT_def)
  qed
qed

lemma leaves_below_linked: "linked h troot up t \<Longrightarrow> leaves_below h troot = Some (leaves t)"
proof (induction t arbitrary: troot up)
  case (Leaf a)
  then show ?case
    by (subst leaves_below.simps) (simp add: eb_dotag_def EB_LEAF_def)
next
  case (Node a l r)
  from Node.prems have troot: "troot = eb_dotag (Branches a) EB_NODE"
    and l: "linked h (branches (nodes h a) EB_LEFT) (eb_dotag (Branches a) EB_LEFT) l"
    and r: "linked h (branches (nodes h a) EB_RGHT) (eb_dotag (Branches a) EB_RGHT) r"
    by simp_all
  from Node.IH(1) [OF l] Node.IH(2) [OF r] troot show ?case
    by (subst leaves_below.simps) (simp add: eb_dotag_def EB_LEAF_def EB_NODE_def)
qed

lemma le_climb:
  "path_up h up fs \<Longrightarrow> eb128_lookup_le_climb h up = Some (Inr (last_opt (before fs)))"
proof (induction fs arbitrary: up)
  case Nil
  then show ?case
    by (subst eb128_lookup_le_climb.simps)
      (simp add: eb_dotag_def EB_LEFT_def EB_RGHT_def rd_b_def last_opt_def)
next
  case (Cons f fs)
  obtain a s sib where f: "f = Frame a s sib"
    by (cases f)
  from Cons.prems f have up: "up = eb_dotag (Branches a) s"
    and sib: "linked h (branches (nodes h a) (\<not> s)) (eb_dotag (Branches a) (\<not> s)) sib"
    and rest: "path_up h (node_p (nodes h a)) fs"
    by simp_all
  show ?case
  proof (cases s)
    case True
    from sib True have "linked h (branches (nodes h a) EB_LEFT) (eb_dotag (Branches a) EB_LEFT) sib"
      by (simp add: EB_LEFT_def)
    then have "descend h EB_RGHT (branches (nodes h a) EB_LEFT) = Some (Inr (last (leaves sib)))"
      by (simp add: descend_linked)
    with up True f show ?thesis
      by (subst eb128_lookup_le_climb.simps)
        (simp add: eb_dotag_def EB_LEFT_def EB_RGHT_def rd_b_def last_opt_def eb_walk_down_def)
  next
    case False
    from sib False have "eb_clrtag (branches (nodes h a) EB_RGHT) \<noteq> None"
      by (auto simp: EB_RGHT_def dest: linked_ptr)
    with up False f Cons.IH [OF rest] show ?thesis
      by (subst eb128_lookup_le_climb.simps)
        (auto simp: eb_dotag_def EB_LEFT_def EB_RGHT_def rd_b_def)
  qed
qed

lemma ge_climb:
  "path_up h up fs \<Longrightarrow> eb128_lookup_ge_climb h up = Some (Inr (hd_opt (after fs)))"
proof (induction fs arbitrary: up)
  case Nil
  then show ?case
    by (subst eb128_lookup_ge_climb.simps)
      (simp add: eb_dotag_def EB_LEFT_def EB_RGHT_def rd_b_def hd_opt_def)
next
  case (Cons f fs)
  obtain a s sib where f: "f = Frame a s sib"
    by (cases f)
  from Cons.prems f have up: "up = eb_dotag (Branches a) s"
    and sib: "linked h (branches (nodes h a) (\<not> s)) (eb_dotag (Branches a) (\<not> s)) sib"
    and rest: "path_up h (node_p (nodes h a)) fs"
    by simp_all
  show ?case
  proof (cases s)
    case True
    with up f Cons.IH [OF rest] show ?thesis
      by (subst eb128_lookup_ge_climb.simps)
        (simp add: eb_dotag_def EB_LEFT_def EB_RGHT_def rd_b_def)
  next
    case False
    from sib False have l: "linked h (branches (nodes h a) EB_RGHT) (eb_dotag (Branches a) EB_RGHT) sib"
      by (simp add: EB_RGHT_def)
    then have "descend h EB_LEFT (branches (nodes h a) EB_RGHT) = Some (Inr (hd (leaves sib)))"
      by (simp add: descend_linked EB_LEFT_def EB_RGHT_def)
    moreover from l have "eb_clrtag (branches (nodes h a) EB_RGHT) \<noteq> None"
      by (rule linked_ptr)
    ultimately show ?thesis using up False f
      by (subst eb128_lookup_ge_climb.simps)
        (simp add: eb_dotag_def EB_LEFT_def EB_RGHT_def rd_b_def hd_opt_def eb_walk_down_def)
  qed
qed

section \<open>The bounded lookups on a well-formed tree\<close>

lemma le_loop:
  "linked h troot up t \<Longrightarrow> path_up h up fs \<Longrightarrow> wf_keys h t \<Longrightarrow>
   eb128_lookup_le_loop h x troot =
     Some (Inr (case last_le h x (leaves t) of Some a \<Rightarrow> Some a | None \<Rightarrow> last_opt (before fs)))"
proof (induction t arbitrary: troot up fs)
  case (Leaf a)
  then have "eb128_lookup_le_climb h (leaf_p (nodes h a)) = Some (Inr (last_opt (before fs)))"
    by (simp add: le_climb)
  with Leaf.prems(1) show ?case
    by (subst eb128_lookup_le_loop.simps)
      (simp add: eb_dotag_def EB_LEAF_def last_le_def key_of_def)
next
  case (Node a l r)
  let ?b = "node_bit (nodes h a)"
  let ?n = "nat ?b"
  let ?k = "key (nodes h a)"
  from Node.prems(1) have troot: "troot = eb_dotag (Branches a) EB_NODE"
    and up: "node_p (nodes h a) = up"
    and l: "linked h (branches (nodes h a) EB_LEFT) (eb_dotag (Branches a) EB_LEFT) l"
    and r: "linked h (branches (nodes h a) EB_RGHT) (eb_dotag (Branches a) EB_RGHT) r"
    by simp_all
  have climb: "eb128_lookup_le_climb h (node_p (nodes h a)) = Some (Inr (last_opt (before fs)))"
    using up Node.prems(2) by (simp add: le_climb)
  have down: "descend h EB_RGHT (branches (nodes h a) EB_RGHT) = Some (Inr (last (leaves l @ leaves r)))"
    using descend_linked [OF r, of EB_RGHT] by simp
  show ?case
  proof (cases "?b < 0")
    case True
    with Node.prems(3) have eq: "\<And>c. c \<in> set (leaves l @ leaves r) \<Longrightarrow> key_of h c = ?k"
      by (simp add: key_of_def)
    show ?thesis
    proof (cases "?k \<le> x")
      case le: True
      with eq have "last_le h x (leaves l @ leaves r) = Some (last (leaves l @ leaves r))"
        by (intro last_le_all) auto
      with True le troot down show ?thesis
        by (subst eb128_lookup_le_loop.simps)
          (simp add: eb_dotag_def EB_LEAF_def EB_NODE_def)
    next
      case nle: False
      with eq have "last_le h x (leaves l @ leaves r) = None"
        by (intro last_le_none) auto
      with True nle troot climb show ?thesis
        by (subst eb128_lookup_le_loop.simps)
          (simp add: eb_dotag_def EB_LEAF_def EB_NODE_def)
    qed
  next
    case False
    with Node.prems(3) have b128: "?b < 128"
      and pl: "\<And>c. c \<in> set (leaves l) \<Longrightarrow>
                drop_bit (Suc ?n) (key_of h c) = drop_bit (Suc ?n) ?k \<and> \<not> bit (key_of h c) ?n"
      and pr: "\<And>c. c \<in> set (leaves r) \<Longrightarrow>
                drop_bit (Suc ?n) (key_of h c) = drop_bit (Suc ?n) ?k \<and> bit (key_of h c) ?n"
      and wl: "wf_keys h l" and wr: "wf_keys h r"
      by (simp_all add: key_of_def del: drop_bit_Suc)
    have pre: "\<And>c. c \<in> set (leaves l @ leaves r) \<Longrightarrow>
                drop_bit (Suc ?n) (key_of h c) = drop_bit (Suc ?n) ?k"
      using pl pr by auto
    from False b128 have vs: "valid_shift ?b"
      by (simp add: valid_shift_def)
    show ?thesis
    proof (cases "EB_NODE_BRANCHES \<le> shr (x XOR ?k) ?b")
      case far: True
      then have ne: "drop_bit (Suc ?n) ?k \<noteq> drop_bit (Suc ?n) x"
        using xor_shift_small_iff [of ?n x ?k]
        by (auto simp: EB_NODE_BRANCHES_def shr_def simp del: drop_bit_Suc drop_bit_xor)
      show ?thesis
      proof (cases "shr ?k ?b < shr x ?b")
        case lt: True
        then have "drop_bit (Suc ?n) ?k < drop_bit (Suc ?n) x"
          using prefix_neq_cmp [OF ne] by (simp add: shr_def del: drop_bit_Suc)
        then have "\<And>c. c \<in> set (leaves l @ leaves r) \<Longrightarrow> key_of h c \<le> x"
          using pre prefix_less [of "Suc ?n" _ x] by (metis less_imp_le)
        then have "last_le h x (leaves l @ leaves r) = Some (last (leaves l @ leaves r))"
          by (intro last_le_all) auto
        with False vs far lt troot down show ?thesis
          by (subst eb128_lookup_le_loop.simps)
            (simp add: eb_dotag_def EB_LEAF_def EB_NODE_def eb_walk_down_def)
      next
        case nlt: False
        then have "\<not> drop_bit (Suc ?n) ?k < drop_bit (Suc ?n) x"
          using prefix_neq_cmp [OF ne] by (simp add: shr_def del: drop_bit_Suc)
        with ne have "drop_bit (Suc ?n) x < drop_bit (Suc ?n) ?k"
          by simp
        then have "\<And>c. c \<in> set (leaves l @ leaves r) \<Longrightarrow> \<not> key_of h c \<le> x"
          using pre prefix_less [of "Suc ?n" x] by (metis not_le)
        then have "last_le h x (leaves l @ leaves r) = None"
          by (intro last_le_none) auto
        with False vs far nlt troot climb show ?thesis
          by (subst eb128_lookup_le_loop.simps)
            (simp add: eb_dotag_def EB_LEAF_def EB_NODE_def)
      qed
    next
      case near: False
      then have same: "drop_bit (Suc ?n) x = drop_bit (Suc ?n) ?k"
        using xor_shift_small_iff [of ?n x ?k]
        by (auto simp: EB_NODE_BRANCHES_def shr_def simp del: drop_bit_Suc drop_bit_xor)
      show ?thesis
      proof (cases "bit x ?n")
        case right: True
        have fs': "path_up h (eb_dotag (Branches a) EB_RGHT) (Frame a EB_RGHT l # fs)"
          using l up Node.prems(2) by (simp add: EB_LEFT_def EB_RGHT_def)
        have rec: "eb128_lookup_le_loop h x (branches (nodes h a) EB_RGHT) =
            Some (Inr (case last_le h x (leaves r) of Some a \<Rightarrow> Some a
                       | None \<Rightarrow> last_opt (before (Frame a EB_RGHT l # fs))))"
          by (rule Node.IH(2) [OF r fs' wr])
        have "\<And>c. c \<in> set (leaves l) \<Longrightarrow> key_of h c \<le> x"
          using pl same right same_prefix_bit_less [of ?n _ x] by (metis less_imp_le)
        then have "last_le h x (leaves l) = Some (last (leaves l))"
          by (intro last_le_all) auto
        then have "(case last_le h x (leaves r) of Some a \<Rightarrow> Some a
                    | None \<Rightarrow> last_opt (before (Frame a EB_RGHT l # fs))) =
                   (case last_le h x (leaves l @ leaves r) of Some a \<Rightarrow> Some a
                    | None \<Rightarrow> last_opt (before fs))"
          by (simp add: last_le_append last_opt_def split: option.splits)
        with rec False vs near right troot show ?thesis
          by (subst eb128_lookup_le_loop.simps)
            (simp add: eb_dotag_def EB_LEAF_def EB_NODE_def branch_bit EB_RGHT_def)
      next
        case left: False
        have fs': "path_up h (eb_dotag (Branches a) EB_LEFT) (Frame a EB_LEFT r # fs)"
          using r up Node.prems(2) by (simp add: EB_LEFT_def EB_RGHT_def)
        have rec: "eb128_lookup_le_loop h x (branches (nodes h a) EB_LEFT) =
            Some (Inr (case last_le h x (leaves l) of Some a \<Rightarrow> Some a
                       | None \<Rightarrow> last_opt (before (Frame a EB_LEFT r # fs))))"
          by (rule Node.IH(1) [OF l fs' wl])
        have "\<And>c. c \<in> set (leaves r) \<Longrightarrow> \<not> key_of h c \<le> x"
          using pr same left same_prefix_bit_less [of ?n x] by (metis not_le)
        then have "last_le h x (leaves r) = None"
          by (intro last_le_none) auto
        then have "(case last_le h x (leaves l) of Some a \<Rightarrow> Some a
                    | None \<Rightarrow> last_opt (before (Frame a EB_LEFT r # fs))) =
                   (case last_le h x (leaves l @ leaves r) of Some a \<Rightarrow> Some a
                    | None \<Rightarrow> last_opt (before fs))"
          by (simp add: last_le_append EB_LEFT_def EB_RGHT_def split: option.splits)
        with rec False vs near left troot show ?thesis
          by (subst eb128_lookup_le_loop.simps)
            (simp add: eb_dotag_def EB_LEAF_def EB_NODE_def branch_bit EB_LEFT_def)
      qed
    qed
  qed
qed

lemma ge_loop:
  "linked h troot up t \<Longrightarrow> path_up h up fs \<Longrightarrow> wf_keys h t \<Longrightarrow>
   eb128_lookup_ge_loop h x troot =
     Some (Inr (case first_ge h x (leaves t) of Some a \<Rightarrow> Some a | None \<Rightarrow> hd_opt (after fs)))"
proof (induction t arbitrary: troot up fs)
  case (Leaf a)
  then have "eb128_lookup_ge_climb h (leaf_p (nodes h a)) = Some (Inr (hd_opt (after fs)))"
    by (simp add: ge_climb)
  with Leaf.prems(1) show ?case
    by (subst eb128_lookup_ge_loop.simps)
      (simp add: eb_dotag_def EB_LEAF_def first_ge_def key_of_def)
next
  case (Node a l r)
  let ?b = "node_bit (nodes h a)"
  let ?n = "nat ?b"
  let ?k = "key (nodes h a)"
  from Node.prems(1) have troot: "troot = eb_dotag (Branches a) EB_NODE"
    and up: "node_p (nodes h a) = up"
    and l: "linked h (branches (nodes h a) EB_LEFT) (eb_dotag (Branches a) EB_LEFT) l"
    and r: "linked h (branches (nodes h a) EB_RGHT) (eb_dotag (Branches a) EB_RGHT) r"
    by simp_all
  have climb: "eb128_lookup_ge_climb h (node_p (nodes h a)) = Some (Inr (hd_opt (after fs)))"
    using up Node.prems(2) by (simp add: ge_climb)
  have down: "descend h EB_LEFT (branches (nodes h a) EB_LEFT) = Some (Inr (hd (leaves l @ leaves r)))"
    using descend_linked [OF l, of EB_LEFT] by (simp add: EB_LEFT_def EB_RGHT_def)
  show ?case
  proof (cases "?b < 0")
    case True
    with Node.prems(3) have eq: "\<And>c. c \<in> set (leaves l @ leaves r) \<Longrightarrow> key_of h c = ?k"
      by (simp add: key_of_def)
    show ?thesis
    proof (cases "x \<le> ?k")
      case le: True
      with eq have "first_ge h x (leaves l @ leaves r) = Some (hd (leaves l @ leaves r))"
        by (intro first_ge_all) auto
      with True le troot down show ?thesis
        by (subst eb128_lookup_ge_loop.simps)
          (simp add: eb_dotag_def EB_LEAF_def EB_NODE_def)
    next
      case nle: False
      with eq have "first_ge h x (leaves l @ leaves r) = None"
        by (intro first_ge_none) auto
      with True nle troot climb show ?thesis
        by (subst eb128_lookup_ge_loop.simps)
          (simp add: eb_dotag_def EB_LEAF_def EB_NODE_def)
    qed
  next
    case False
    with Node.prems(3) have b128: "?b < 128"
      and pl: "\<And>c. c \<in> set (leaves l) \<Longrightarrow>
                drop_bit (Suc ?n) (key_of h c) = drop_bit (Suc ?n) ?k \<and> \<not> bit (key_of h c) ?n"
      and pr: "\<And>c. c \<in> set (leaves r) \<Longrightarrow>
                drop_bit (Suc ?n) (key_of h c) = drop_bit (Suc ?n) ?k \<and> bit (key_of h c) ?n"
      and wl: "wf_keys h l" and wr: "wf_keys h r"
      by (simp_all add: key_of_def del: drop_bit_Suc)
    have pre: "\<And>c. c \<in> set (leaves l @ leaves r) \<Longrightarrow>
                drop_bit (Suc ?n) (key_of h c) = drop_bit (Suc ?n) ?k"
      using pl pr by auto
    from False b128 have vs: "valid_shift ?b"
      by (simp add: valid_shift_def)
    show ?thesis
    proof (cases "EB_NODE_BRANCHES \<le> shr (x XOR ?k) ?b")
      case far: True
      then have ne: "drop_bit (Suc ?n) x \<noteq> drop_bit (Suc ?n) ?k"
        using xor_shift_small_iff [of ?n x ?k]
        by (auto simp: EB_NODE_BRANCHES_def shr_def simp del: drop_bit_Suc drop_bit_xor)
      show ?thesis
      proof (cases "shr x ?b < shr ?k ?b")
        case lt: True
        then have "drop_bit (Suc ?n) x < drop_bit (Suc ?n) ?k"
          using prefix_neq_cmp [OF ne] by (simp add: shr_def del: drop_bit_Suc)
        then have "\<And>c. c \<in> set (leaves l @ leaves r) \<Longrightarrow> x \<le> key_of h c"
          using pre prefix_less [of "Suc ?n" x] by (metis less_imp_le)
        then have "first_ge h x (leaves l @ leaves r) = Some (hd (leaves l @ leaves r))"
          by (intro first_ge_all) auto
        with False vs far lt troot down show ?thesis
          by (subst eb128_lookup_ge_loop.simps)
            (simp add: eb_dotag_def EB_LEAF_def EB_NODE_def eb_walk_down_def)
      next
        case nlt: False
        then have "\<not> drop_bit (Suc ?n) x < drop_bit (Suc ?n) ?k"
          using prefix_neq_cmp [OF ne] by (simp add: shr_def del: drop_bit_Suc)
        with ne have "drop_bit (Suc ?n) ?k < drop_bit (Suc ?n) x"
          by simp
        then have "\<And>c. c \<in> set (leaves l @ leaves r) \<Longrightarrow> \<not> x \<le> key_of h c"
          using pre prefix_less [of "Suc ?n" _ x] by (metis not_le)
        then have "first_ge h x (leaves l @ leaves r) = None"
          by (intro first_ge_none) auto
        with False vs far nlt troot climb show ?thesis
          by (subst eb128_lookup_ge_loop.simps)
            (simp add: eb_dotag_def EB_LEAF_def EB_NODE_def)
      qed
    next
      case near: False
      then have same: "drop_bit (Suc ?n) x = drop_bit (Suc ?n) ?k"
        using xor_shift_small_iff [of ?n x ?k]
        by (auto simp: EB_NODE_BRANCHES_def shr_def simp del: drop_bit_Suc drop_bit_xor)
      show ?thesis
      proof (cases "bit x ?n")
        case right: True
        have fs': "path_up h (eb_dotag (Branches a) EB_RGHT) (Frame a EB_RGHT l # fs)"
          using l up Node.prems(2) by (simp add: EB_LEFT_def EB_RGHT_def)
        have rec: "eb128_lookup_ge_loop h x (branches (nodes h a) EB_RGHT) =
            Some (Inr (case first_ge h x (leaves r) of Some a \<Rightarrow> Some a
                       | None \<Rightarrow> hd_opt (after (Frame a EB_RGHT l # fs))))"
          by (rule Node.IH(2) [OF r fs' wr])
        have "\<And>c. c \<in> set (leaves l) \<Longrightarrow> \<not> x \<le> key_of h c"
          using pl same right same_prefix_bit_less [of ?n _ x] by (metis not_le)
        then have "first_ge h x (leaves l) = None"
          by (intro first_ge_none) auto
        then have "(case first_ge h x (leaves r) of Some a \<Rightarrow> Some a
                    | None \<Rightarrow> hd_opt (after (Frame a EB_RGHT l # fs))) =
                   (case first_ge h x (leaves l @ leaves r) of Some a \<Rightarrow> Some a
                    | None \<Rightarrow> hd_opt (after fs))"
          by (simp add: first_ge_append EB_LEFT_def EB_RGHT_def split: option.splits)
        with rec False vs near right troot show ?thesis
          by (subst eb128_lookup_ge_loop.simps)
            (simp add: eb_dotag_def EB_LEAF_def EB_NODE_def branch_bit EB_RGHT_def)
      next
        case left: False
        have fs': "path_up h (eb_dotag (Branches a) EB_LEFT) (Frame a EB_LEFT r # fs)"
          using r up Node.prems(2) by (simp add: EB_LEFT_def EB_RGHT_def)
        have rec: "eb128_lookup_ge_loop h x (branches (nodes h a) EB_LEFT) =
            Some (Inr (case first_ge h x (leaves l) of Some a \<Rightarrow> Some a
                       | None \<Rightarrow> hd_opt (after (Frame a EB_LEFT r # fs))))"
          by (rule Node.IH(1) [OF l fs' wl])
        have "\<And>c. c \<in> set (leaves r) \<Longrightarrow> x \<le> key_of h c"
          using pr same left same_prefix_bit_less [of ?n x] by (metis less_imp_le)
        then have "first_ge h x (leaves r) = Some (hd (leaves r))"
          by (intro first_ge_all) auto
        then have "(case first_ge h x (leaves l) of Some a \<Rightarrow> Some a
                    | None \<Rightarrow> hd_opt (after (Frame a EB_LEFT r # fs))) =
                   (case first_ge h x (leaves l @ leaves r) of Some a \<Rightarrow> Some a
                    | None \<Rightarrow> hd_opt (after fs))"
          by (simp add: first_ge_append hd_opt_def EB_LEFT_def split: option.splits)
        with rec False vs near left troot show ?thesis
          by (subst eb128_lookup_ge_loop.simps)
            (simp add: eb_dotag_def EB_LEAF_def EB_NODE_def branch_bit EB_LEFT_def)
      qed
    qed
  qed
qed

lemma wf_keys_sorted: "wf_keys h t \<Longrightarrow> sorted (map (key_of h) (leaves t))"
proof (induction t)
  case (Leaf a)
  then show ?case by simp
next
  case (Node a l r)
  let ?n = "nat (node_bit (nodes h a))"
  show ?case
  proof (cases "node_bit (nodes h a) < 0")
    case True
    with Node.prems show ?thesis
      by (intro sorted_const [of _ _ "key_of h a"]) auto
  next
    case False
    with Node.prems have pl: "\<And>c. c \<in> set (leaves l) \<Longrightarrow>
                drop_bit (Suc ?n) (key_of h c) = drop_bit (Suc ?n) (key_of h a) \<and> \<not> bit (key_of h c) ?n"
      and pr: "\<And>c. c \<in> set (leaves r) \<Longrightarrow>
                drop_bit (Suc ?n) (key_of h c) = drop_bit (Suc ?n) (key_of h a) \<and> bit (key_of h c) ?n"
      and wl: "wf_keys h l" and wr: "wf_keys h r"
      by (simp_all del: drop_bit_Suc)
    have "\<And>c d. c \<in> set (leaves l) \<Longrightarrow> d \<in> set (leaves r) \<Longrightarrow> key_of h c \<le> key_of h d"
      using pl pr same_prefix_bit_less [of ?n] by (metis less_imp_le)
    with Node.IH(1) [OF wl] Node.IH(2) [OF wr] show ?thesis
      by (auto simp: sorted_append)
  qed
qed

lemma well_formed_not_empty: "well_formed h t \<Longrightarrow> tree_root h EB_LEFT \<noteq> NULL"
  by (cases t) (auto simp: well_formed_def NULL_def eb_dotag_def)

lemma path_up_root: "well_formed h t \<Longrightarrow> path_up h (eb_dotag Root EB_LEFT) []"
  by (simp add: well_formed_def)

lemma lookup_le_well_formed:
  assumes "well_formed h t"
  shows "eb128_lookup_le h x = Some (Inr (last_le h x (leaves t)))"
proof -
  from assms have "eb128_lookup_le_loop h x (tree_root h EB_LEFT) =
      Some (Inr (case last_le h x (leaves t) of Some a \<Rightarrow> Some a | None \<Rightarrow> last_opt (before [])))"
    by (intro le_loop [of _ _ "eb_dotag Root EB_LEFT"]) (simp_all add: well_formed_def)
  with well_formed_not_empty [OF assms] show ?thesis
    by (simp add: eb128_lookup_le_def last_opt_def split: option.splits)
qed

lemma lookup_ge_well_formed:
  assumes "well_formed h t"
  shows "eb128_lookup_ge h x = Some (Inr (first_ge h x (leaves t)))"
proof -
  from assms have "eb128_lookup_ge_loop h x (tree_root h EB_LEFT) =
      Some (Inr (case first_ge h x (leaves t) of Some a \<Rightarrow> Some a | None \<Rightarrow> hd_opt (after [])))"
    by (intro ge_loop [of _ _ "eb_dotag Root EB_LEFT"]) (simp_all add: well_formed_def)
  with well_formed_not_empty [OF assms] show ?thesis
    by (simp add: eb128_lookup_ge_def hd_opt_def split: option.splits)
qed

lemma inorder_well_formed: "well_formed h t \<Longrightarrow> inorder h = Some (leaves t)"
  using well_formed_not_empty [of h t]
    leaves_below_linked [of h "tree_root h EB_LEFT" "eb_dotag Root EB_LEFT" t]
  by (simp add: inorder_def well_formed_def)

text \<open>
  On an empty tree both bounded lookups return nothing. On a well-formed tree, whose
  records from left to right are \<open>leaves t\<close>, \<^verbatim>\<open>eb128_lookup_le\<close> returns a stored record
  whose key is at most \<open>x\<close> and at least every stored key that is at most \<open>x\<close>, and
  returns nothing exactly when every stored key is greater than \<open>x\<close>;
  \<^verbatim>\<open>eb128_lookup_ge\<close> returns a stored record whose key is at least \<open>x\<close> and at most every
  stored key that is at least \<open>x\<close>, and nothing exactly when every stored key is less
  than \<open>x\<close>. Neither lookup faults or runs forever.
\<close>

theorem bounded_lookups_well_formed:
  "(tree_root h EB_LEFT = NULL \<longrightarrow>
      eb128_lookup_le h x = Some (Inr None) \<and> eb128_lookup_ge h x = Some (Inr None)) \<and>
   (well_formed h t \<longrightarrow>
      inorder h = Some (leaves t) \<and>
      (\<exists>r. eb128_lookup_le h x = Some (Inr r) \<and>
         (case r of
            None \<Rightarrow> True
          | Some a \<Rightarrow>
              a \<in> set (leaves t) \<and> key_of h a \<le> x \<and>
              (\<forall>c \<in> set (leaves t). key_of h c \<le> x \<longrightarrow> key_of h c \<le> key_of h a)) \<and>
         (r = None) = (\<forall>c \<in> set (leaves t). x < key_of h c)) \<and>
      (\<exists>r. eb128_lookup_ge h x = Some (Inr r) \<and>
         (case r of
            None \<Rightarrow> True
          | Some a \<Rightarrow>
              a \<in> set (leaves t) \<and> x \<le> key_of h a \<and>
              (\<forall>c \<in> set (leaves t). x \<le> key_of h c \<longrightarrow> key_of h a \<le> key_of h c)) \<and>
         (r = None) = (\<forall>c \<in> set (leaves t). key_of h c < x)))"
proof (intro conjI impI)
  assume "tree_root h EB_LEFT = NULL"
  then show "eb128_lookup_le h x = Some (Inr None)" "eb128_lookup_ge h x = Some (Inr None)"
    by (simp_all add: eb128_lookup_le_def eb128_lookup_ge_def)
next
  assume wf: "well_formed h t"
  then show "inorder h = Some (leaves t)"
    by (rule inorder_well_formed)
  from wf have srt: "sorted (map (key_of h) (leaves t))"
    by (simp add: well_formed_def wf_keys_sorted)
  show "\<exists>r. eb128_lookup_le h x = Some (Inr r) \<and>
         (case r of
            None \<Rightarrow> True
          | Some a \<Rightarrow>
              a \<in> set (leaves t) \<and> key_of h a \<le> x \<and>
              (\<forall>c \<in> set (leaves t). key_of h c \<le> x \<longrightarrow> key_of h c \<le> key_of h a)) \<and>
         (r = None) = (\<forall>c \<in> set (leaves t). x < key_of h c)"
    using lookup_le_well_formed [OF wf, of x] last_le_Some [OF srt, of x] last_le_None [of h x "leaves t"]
    by (auto split: option.splits)
  show "\<exists>r. eb128_lookup_ge h x = Some (Inr r) \<and>
         (case r of
            None \<Rightarrow> True
          | Some a \<Rightarrow>
              a \<in> set (leaves t) \<and> x \<le> key_of h a \<and>
              (\<forall>c \<in> set (leaves t). x \<le> key_of h c \<longrightarrow> key_of h a \<le> key_of h c)) \<and>
         (r = None) = (\<forall>c \<in> set (leaves t). key_of h c < x)"
    using lookup_ge_well_formed [OF wf, of x] first_ge_Some [OF srt, of x] first_ge_None [of h x "leaves t"]
    by (auto split: option.splits)
qed

lemma demo_heap:
  "\<exists>h. demo_built h \<and> well_formed h demo_tree \<and> wf_owner h demo_tree \<and>
     map (key_of h) (leaves demo_tree) = [10, 20, 20, 20, 30] \<and> leaves demo_tree = [1, 0, 3, 4, 2]"
  by (simp add: demo_built_def keys_demo_def demo_tree_def eb128_insert_def tag_defs heap_defs insert_defs Let_def
      well_formed_def)

theorem bounded_lookups_demo:
  "eb128_lookup_le (fresh_heap False keys_demo) 25 = Some (Inr None) \<and>
   eb128_lookup_ge (fresh_heap False keys_demo) 25 = Some (Inr None) \<and>
   (\<exists>h. demo_built h \<and> well_formed h demo_tree \<and> inorder h = Some [1, 0, 3, 4, 2] \<and>
      map (key_of h) [1, 0, 3, 4, 2] = [10, 20, 20, 20, 30] \<and>
      (\<exists>a. eb128_lookup_le h 25 = Some (Inr (Some a)) \<and> key_of h a = 20) \<and>
      (\<exists>a. eb128_lookup_ge h 25 = Some (Inr (Some a)) \<and> key_of h a = 30) \<and>
      eb128_lookup_le h 5 = Some (Inr None) \<and> eb128_lookup_ge h 31 = Some (Inr None))"
proof -
  have empty: "tree_root (fresh_heap False keys_demo) EB_LEFT = NULL"
    by (simp add: fresh_heap_def empty_root_def EB_LEFT_def EB_RGHT_def)
  from demo_heap obtain h where h: "demo_built h"
    and wf: "well_formed h demo_tree"
    and ks: "map (key_of h) (leaves demo_tree) = [10, 20, 20, 20, 30]"
    and ls: "leaves demo_tree = [1, 0, 3, 4, 2]"
    by (elim exE conjE)
  from ks ls have k: "key_of h (Suc 0) = 10" "key_of h 0 = 20" "key_of h 3 = 20"
    "key_of h 4 = 20" "key_of h 2 = 30"
    by simp_all
  have le25: "\<exists>a. eb128_lookup_le h 25 = Some (Inr (Some a)) \<and> key_of h a = 20"
    using bounded_lookups_well_formed [of h 25 demo_tree] wf ls k
    by (auto split: option.splits)
  have ge25: "\<exists>a. eb128_lookup_ge h 25 = Some (Inr (Some a)) \<and> key_of h a = 30"
    using bounded_lookups_well_formed [of h 25 demo_tree] wf ls k
    by (auto split: option.splits)
  have le5: "eb128_lookup_le h 5 = Some (Inr None)"
    using bounded_lookups_well_formed [of h 5 demo_tree] wf ls k
    by (auto split: option.splits)
  have ge31: "eb128_lookup_ge h 31 = Some (Inr None)"
    using bounded_lookups_well_formed [of h 31 demo_tree] wf ls k
    by (auto split: option.splits)
  from bounded_lookups_well_formed [of h 25 demo_tree] wf ls have "inorder h = Some [1, 0, 3, 4, 2]"
    by simp
  with bounded_lookups_well_formed [of "fresh_heap False keys_demo" 25 demo_tree] empty h wf ks ls le25 ge25 le5 ge31
  show ?thesis
    by auto
qed

section \<open>Duplicates\<close>

lemma lookup_loop_stored:
  "linked h troot up t \<Longrightarrow> wf_keys h t \<Longrightarrow> wf_owner h t \<Longrightarrow>
   \<exists>c \<in> set (leaves t). key_of h c = x \<Longrightarrow>
   eb128_lookup_loop h x troot = Some (Inr (List.find (\<lambda>c. key_of h c = x) (leaves t)))"
proof (induction t arbitrary: troot up)
  case (Leaf a)
  then show ?case
    by (subst eb128_lookup_loop.simps) (simp add: eb_dotag_def EB_LEAF_def key_of_def)
next
  case (Node a l r)
  let ?b = "node_bit (nodes h a)"
  let ?n = "nat ?b"
  let ?k = "key (nodes h a)"
  let ?P = "\<lambda>c. key_of h c = x"
  from Node.prems(1) have troot: "troot = eb_dotag (Branches a) EB_NODE"
    and l: "linked h (branches (nodes h a) EB_LEFT) (eb_dotag (Branches a) EB_LEFT) l"
    and r: "linked h (branches (nodes h a) EB_RGHT) (eb_dotag (Branches a) EB_RGHT) r"
    by simp_all
  from Node.prems(4) obtain c where c: "c \<in> set (leaves l @ leaves r)" "key_of h c = x"
    by auto
  show ?case
  proof (cases "?b < 0")
    case True
    with Node.prems(2) have eq: "\<And>d. d \<in> set (leaves l @ leaves r) \<Longrightarrow> key_of h d = ?k"
      by (simp add: key_of_def)
    with c have x: "?k = x"
      by auto
    with eq have "List.find ?P (leaves l @ leaves r) = Some (hd (leaves l @ leaves r))"
      by (intro find_all_hd) auto
    moreover have "descend h EB_LEFT (branches (nodes h a) EB_LEFT) = Some (Inr (hd (leaves l @ leaves r)))"
      using descend_linked [OF l, of EB_LEFT] by (simp add: EB_LEFT_def EB_RGHT_def)
    ultimately show ?thesis using True x troot
      by (subst eb128_lookup_loop.simps)
        (simp add: eb_dotag_def EB_LEAF_def EB_NODE_def)
  next
    case False
    with Node.prems(2) have b128: "?b < 128"
      and pl: "\<And>c. c \<in> set (leaves l) \<Longrightarrow>
                drop_bit (Suc ?n) (key_of h c) = drop_bit (Suc ?n) ?k \<and> \<not> bit (key_of h c) ?n"
      and pr: "\<And>c. c \<in> set (leaves r) \<Longrightarrow>
                drop_bit (Suc ?n) (key_of h c) = drop_bit (Suc ?n) ?k \<and> bit (key_of h c) ?n"
      and wl: "wf_keys h l" and wr: "wf_keys h r"
      by (simp_all add: key_of_def del: drop_bit_Suc)
    from False Node.prems(3) have own: "List.find (\<lambda>c. key_of h c = ?k) (leaves l @ leaves r) = Some a"
      and ol: "wf_owner h l" and or: "wf_owner h r"
      by (simp_all add: key_of_def)
    from False b128 have vs: "valid_shift ?b"
      by (simp add: valid_shift_def)
    show ?thesis
    proof (cases "?k = x")
      case True
      with own False troot show ?thesis
        by (subst eb128_lookup_loop.simps)
          (simp add: eb_dotag_def EB_LEAF_def EB_NODE_def)
    next
      case neq: False
      then have y: "?k XOR x \<noteq> 0"
        by (simp add: xor_zero_iff)
      from c pl pr have "drop_bit (Suc ?n) x = drop_bit (Suc ?n) ?k"
        by auto
      then have near: "\<not> EB_NODE_BRANCHES \<le> shr (?k XOR x) ?b"
        using xor_shift_small_iff [of ?n x ?k]
        by (simp add: EB_NODE_BRANCHES_def shr_def xor.commute not_le del: drop_bit_Suc drop_bit_xor)
      show ?thesis
      proof (cases "bit x ?n")
        case right: True
        with c pl have cr: "\<exists>c \<in> set (leaves r). key_of h c = x"
          by auto
        from right pl have "\<And>d. d \<in> set (leaves l) \<Longrightarrow> \<not> ?P d"
          by auto
        then have "List.find ?P (leaves l) = None"
          by (simp add: find_None_iff)
        then have "List.find ?P (leaves l @ leaves r) = List.find ?P (leaves r)"
          by (simp add: find_append)
        with Node.IH(2) [OF r wr or cr] False vs y near right troot show ?thesis
          by (subst eb128_lookup_loop.simps)
            (simp add: eb_dotag_def EB_LEAF_def EB_NODE_def branch_bit EB_RGHT_def Let_def)
      next
        case left: False
        with c pr have cl: "\<exists>c \<in> set (leaves l). key_of h c = x"
          by auto
        then have "List.find ?P (leaves l) \<noteq> None"
          by (auto simp: find_None_iff)
        then have "List.find ?P (leaves l @ leaves r) = List.find ?P (leaves l)"
          by (auto simp: find_append)
        with Node.IH(1) [OF l wl ol cl] False vs y near left troot show ?thesis
          by (subst eb128_lookup_loop.simps)
            (simp add: eb_dotag_def EB_LEAF_def EB_NODE_def branch_bit EB_LEFT_def Let_def)
      qed
    qed
  qed
qed

lemma lookup_well_formed:
  assumes "well_formed h t" "wf_owner h t" "c \<in> set (leaves t)" "key_of h c = x"
  shows "eb128_lookup h x = Some (Inr (Some (hd (filter (\<lambda>d. key_of h d = x) (leaves t)))))"
proof -
  from assms have "eb128_lookup_loop h x (tree_root h EB_LEFT) =
      Some (Inr (List.find (\<lambda>d. key_of h d = x) (leaves t)))"
    by (intro lookup_loop_stored [of _ _ "eb_dotag Root EB_LEFT"]) (auto simp: well_formed_def)
  with well_formed_not_empty [OF assms(1)] find_hd_filter [OF assms(3), of "\<lambda>d. key_of h d = x"] assms(4)
  show ?thesis
    by (simp add: eb128_lookup_def)
qed

text \<open>
  On a well-formed tree that stores the key \<open>k\<close>, in which the records with key
  \<open>k\<close> are the leaves of one duplicate subtree in insertion order: when \<open>k\<close> is the
  greatest stored key that is at most \<open>x\<close>, \<^verbatim>\<open>eb128_lookup_le\<close> returns the last record
  with key \<open>k\<close> from left to right, the rightmost leaf of the duplicates;
  \<^verbatim>\<open>eb128_lookup\<close> of \<open>k\<close> returns the first one, the leftmost leaf; and when \<open>k\<close> is the
  least stored key that is at least \<open>x\<close>, \<^verbatim>\<open>eb128_lookup_ge\<close> returns the first one.
\<close>

theorem duplicates_well_formed:
  assumes "well_formed h t" "wf_owner h t" "c \<in> set (leaves t)" "key_of h c = k"
  shows "(k \<le> x \<and> (\<forall>d \<in> set (leaves t). key_of h d \<le> x \<longrightarrow> key_of h d \<le> k) \<longrightarrow>
            eb128_lookup_le h x =
              Some (Inr (Some (last (filter (\<lambda>d. key_of h d = k) (leaves t)))))) \<and>
         eb128_lookup h k = Some (Inr (Some (hd (filter (\<lambda>d. key_of h d = k) (leaves t))))) \<and>
         (x \<le> k \<and> (\<forall>d \<in> set (leaves t). x \<le> key_of h d \<longrightarrow> k \<le> key_of h d) \<longrightarrow>
            eb128_lookup_ge h x =
              Some (Inr (Some (hd (filter (\<lambda>d. key_of h d = k) (leaves t))))))"
proof (intro conjI impI)
  from assms(1) have srt: "sorted (map (key_of h) (leaves t))"
    by (simp add: well_formed_def wf_keys_sorted)
  show "eb128_lookup h k = Some (Inr (Some (hd (filter (\<lambda>d. key_of h d = k) (leaves t)))))"
    using assms by (rule lookup_well_formed)
  {
    assume a: "k \<le> x \<and> (\<forall>d \<in> set (leaves t). key_of h d \<le> x \<longrightarrow> key_of h d \<le> k)"
    with assms(3,4) have "last_le h x (leaves t) \<noteq> None"
      by (auto simp: last_le_None not_less)
    then obtain a' where a': "last_le h x (leaves t) = Some a'"
      by auto
    from last_le_Some [OF srt a'] obtain ys zs where in_t: "a' \<in> set (leaves t)"
      and le: "key_of h a' \<le> x"
      and mx: "\<forall>c \<in> set (leaves t). key_of h c \<le> x \<longrightarrow> key_of h c \<le> key_of h a'"
      and s: "leaves t = ys @ a' # zs" and z: "\<forall>z \<in> set zs. x < key_of h z"
      by blast
    from a in_t le mx assms(3,4) have ka: "key_of h a' = k"
      by (meson order.antisym)
    from z a have "filter (\<lambda>d. key_of h d = k) zs = []"
      by (auto simp: filter_empty_conv)
    with s ka have "last (filter (\<lambda>d. key_of h d = k) (leaves t)) = a'"
      by simp
    with a' show "eb128_lookup_le h x =
        Some (Inr (Some (last (filter (\<lambda>d. key_of h d = k) (leaves t)))))"
      by (simp add: lookup_le_well_formed [OF assms(1)])
  }
  {
    assume a: "x \<le> k \<and> (\<forall>d \<in> set (leaves t). x \<le> key_of h d \<longrightarrow> k \<le> key_of h d)"
    with assms(3,4) have "first_ge h x (leaves t) \<noteq> None"
      by (auto simp: first_ge_None not_less)
    then obtain a' where a': "first_ge h x (leaves t) = Some a'"
      by auto
    from first_ge_Some [OF srt a'] obtain ys zs where in_t: "a' \<in> set (leaves t)"
      and le: "x \<le> key_of h a'"
      and mx: "\<forall>c \<in> set (leaves t). x \<le> key_of h c \<longrightarrow> key_of h a' \<le> key_of h c"
      and s: "leaves t = ys @ a' # zs" and y: "\<forall>y \<in> set ys. key_of h y < x"
      by blast
    from a in_t le mx assms(3,4) have ka: "key_of h a' = k"
      by (meson order.antisym)
    from y a have "filter (\<lambda>d. key_of h d = k) ys = []"
      by (auto simp: filter_empty_conv)
    with s ka have "hd (filter (\<lambda>d. key_of h d = k) (leaves t)) = a'"
      by simp
    with a' show "eb128_lookup_ge h x =
        Some (Inr (Some (hd (filter (\<lambda>d. key_of h d = k) (leaves t)))))"
      by (simp add: lookup_ge_well_formed [OF assms(1)])
  }
qed

theorem duplicates_demo:
  "\<exists>h. demo_built h \<and> well_formed h demo_tree \<and> wf_owner h demo_tree \<and> inorder h = Some [1, 0, 3, 4, 2] \<and>
     map (key_of h) [1, 0, 3, 4, 2] = [10, 20, 20, 20, 30] \<and>
     eb128_lookup_le h 25 = Some (Inr (Some 4)) \<and>
     eb128_lookup h 20 = Some (Inr (Some 0)) \<and>
     eb128_lookup_ge h 15 = Some (Inr (Some 0))"
proof -
  from demo_heap obtain h where h: "demo_built h"
    and wf: "well_formed h demo_tree" and own: "wf_owner h demo_tree"
    and ks: "map (key_of h) (leaves demo_tree) = [10, 20, 20, 20, 30]"
    and ls: "leaves demo_tree = [1, 0, 3, 4, 2]"
    by (elim exE conjE)
  from ks ls have k: "key_of h (Suc 0) = 10" "key_of h 0 = 20" "key_of h 3 = 20"
    "key_of h 4 = 20" "key_of h 2 = 30"
    by simp_all
  have c: "0 \<in> set (leaves demo_tree)"
    by (simp add: ls)
  have "eb128_lookup_le h 25 = Some (Inr (Some 4))"
    using duplicates_well_formed [OF wf own c k(2), of 25] by (simp add: ls k)
  moreover have "eb128_lookup h 20 = Some (Inr (Some 0))"
    using duplicates_well_formed [OF wf own c k(2), of 25] by (simp add: ls k)
  moreover have "eb128_lookup_ge h 15 = Some (Inr (Some 0))"
    using duplicates_well_formed [OF wf own c k(2), of 15] by (simp add: ls k)
  moreover have "inorder h = Some [1, 0, 3, 4, 2]"
    using inorder_well_formed [OF wf] by (simp add: ls)
  ultimately show ?thesis
    using h wf own ks ls by auto
qed

section \<open>The most significant differing bit\<close>

text \<open>
  \<^verbatim>\<open>fls128\<close> of the exclusive-or of two different keys, less one, is the highest position
  in which they differ: above it the keys agree.
\<close>

lemma fls_nat_bounds: "0 < n \<Longrightarrow> 2 ^ (fls_nat n - 1) \<le> n \<and> n < 2 ^ fls_nat n"
proof (induction n rule: fls_nat.induct)
  case (1 n)
  show ?case
  proof (cases "n div 2 = 0")
    case True
    with "1.prems" have "n = 1" by linarith
    then show ?thesis by (simp add: fls_nat.simps [of 1] fls_nat.simps [of 0])
  next
    case False
    with "1.IH" "1.prems" have ih: "2 ^ (fls_nat (n div 2) - 1) \<le> n div 2 \<and> n div 2 < 2 ^ fls_nat (n div 2)"
      by simp
    from False have pos: "0 < fls_nat (n div 2)"
      by (subst fls_nat.simps) simp
    have f: "fls_nat n = Suc (fls_nat (n div 2))"
      using "1.prems" by (subst fls_nat.simps) simp
    from pos have "(2::nat) ^ fls_nat (n div 2) = 2 * 2 ^ (fls_nat (n div 2) - 1)"
      by (cases "fls_nat (n div 2)") simp_all
    moreover have "2 * (n div 2) \<le> n" "n < 2 * (n div 2) + 2"
      by presburger+
    ultimately show ?thesis
      using ih f by (simp only: diff_Suc_1 power_Suc) linarith
  qed
qed

lemma fls_nat_pos: "0 < n \<Longrightarrow> 0 < fls_nat n"
  by (subst fls_nat.simps) simp

lemma msb_word:
  fixes x :: u128
  assumes "x \<noteq> 0"
  defines "b \<equiv> nat (fls128 x - EB_NODE_BITS)"
  shows "0 \<le> fls128 x - EB_NODE_BITS" "b < 128" "bit x b" "drop_bit (Suc b) x = 0"
proof -
  from assms(1) have pos: "0 < unat x"
    by (simp add: unat_gt_0)
  note bd = fls_nat_bounds [OF pos]
  note fp = fls_nat_pos [OF pos]
  from fp show "0 \<le> fls128 x - EB_NODE_BITS"
    by (simp add: fls128_def EB_NODE_BITS_def)
  from fp have b: "b = fls_nat (unat x) - 1"
    by (simp add: b_def fls128_def EB_NODE_BITS_def nat_diff_distrib)
  have "unat x < 2 ^ LENGTH(128)"
    by (rule unsigned_less)
  moreover from bd b have le: "2 ^ b \<le> unat x"
    by simp
  ultimately have "(2::nat) ^ b < 2 ^ LENGTH(128)"
    by (rule_tac le_less_trans)
  then have "b < LENGTH(128)"
    by (rule power_less_imp_less_exp [of 2, rotated]) simp
  then show "b < 128"
    by simp
  from fp b have sb: "Suc b = fls_nat (unat x)"
    by simp
  with bd have lt: "unat x < 2 ^ Suc b"
    by simp
  then have "unat x div 2 ^ Suc b = 0"
    by simp
  then show "drop_bit (Suc b) x = 0"
    by (simp only: word_unat_eq_iff unat_drop) simp
  from le lt have "unat x div 2 ^ b = 1"
    by (intro div_nat_eqI) simp_all
  then show "bit x b"
    by (simp add: bit_odd_unat)
qed

lemma msb_diff:
  fixes n o' :: u128
  assumes "n \<noteq> o'"
  defines "b \<equiv> nat (fls128 (n XOR o') - EB_NODE_BITS)"
  shows "0 \<le> fls128 (n XOR o') - EB_NODE_BITS" "b < 128"
    "bit n b \<noteq> bit o' b" "drop_bit (Suc b) n = drop_bit (Suc b) o'"
proof -
  from assms(1) have nz: "n XOR o' \<noteq> 0"
    by (simp add: xor_zero_iff)
  from msb_word [OF nz] show "0 \<le> fls128 (n XOR o') - EB_NODE_BITS" "b < 128"
    by (simp_all add: b_def)
  from msb_word(3) [OF nz] show "bit n b \<noteq> bit o' b"
    by (simp add: b_def bit_xor_iff)
  from msb_word(4) [OF nz] have "drop_bit (Suc b) n XOR drop_bit (Suc b) o' = 0"
    by (simp only: b_def drop_bit_xor)
  then show "drop_bit (Suc b) n = drop_bit (Suc b) o'"
    by (simp only: xor_zero_iff)
qed

lemma drop_bit_eq_mono:
  fixes c o' :: u128
  assumes "drop_bit m c = drop_bit m o'" "m \<le> m'"
  shows "drop_bit m' c = drop_bit m' o'"
proof -
  from assms(2) obtain d where "m' = d + m"
    by (metis le_add_diff_inverse2)
  then have "drop_bit m' c = drop_bit d (drop_bit m c)" "drop_bit m' o' = drop_bit d (drop_bit m o')"
    by (simp_all only: drop_bit_drop_bit add.commute)
  with assms(1) show ?thesis
    by simp
qed

lemma drop_bit_eq_bit:
  fixes c o' :: u128
  assumes "drop_bit m c = drop_bit m o'" "m \<le> j"
  shows "bit c j = bit o' j"
proof -
  from assms(2) obtain d where j: "j = m + d"
    by (metis le_add_diff_inverse)
  have "bit c j = bit (drop_bit m c) d" "bit o' j = bit (drop_bit m o') d"
    by (simp_all add: bit_drop_bit_eq j)
  with assms(1) show ?thesis
    by simp
qed

section \<open>Stores that agree on a subtree\<close>

text \<open>
  Links, keys and the predicates on trees only read the records of the tree.
\<close>

lemma agree_on_Node:
  "agree_on h h' (Node a l r) \<Longrightarrow> agree_on h h' l \<and> agree_on h h' r"
  by (auto simp: agree_on_def)

lemma linked_agree: "agree_on h h' t \<Longrightarrow> linked h' troot up t = linked h troot up t"
proof (induction t arbitrary: troot up)
  case (Leaf a)
  then show ?case by (simp add: agree_on_def)
next
  case (Node a l r)
  from Node.prems have "agree_on h h' l" "agree_on h h' r"
    by (auto dest: agree_on_Node)
  with Node.IH have "\<And>troot up. linked h' troot up l = linked h troot up l"
    "\<And>troot up. linked h' troot up r = linked h troot up r"
    by auto
  moreover from Node.prems have "node_p (nodes h' a) = node_p (nodes h a)"
    "\<And>s. branches (nodes h' a) s = branches (nodes h a) s"
    by (simp_all add: agree_on_def)
  ultimately show ?case by simp
qed

lemma agree_on_keys: "agree_on h h' t \<Longrightarrow> agree_keys h h' t"
  by (simp add: agree_on_def agree_keys_def)

lemma agree_keys_Node:
  "agree_keys h h' (Node a l r) \<Longrightarrow> agree_keys h h' l \<and> agree_keys h h' r"
  by (auto simp: agree_keys_def)

lemma key_of_agree: "agree_keys h h' t \<Longrightarrow> key_of h' = key_of h"
  by (auto simp: agree_keys_def key_of_def)

lemma wf_keys_agree: "agree_keys h h' t \<Longrightarrow> wf_keys h' t = wf_keys h t"
proof (induction t)
  case (Leaf a)
  then show ?case by simp
next
  case (Node a l r)
  from Node.prems have "agree_keys h h' l" "agree_keys h h' r"
    by (auto dest: agree_keys_Node)
  with Node.IH have "wf_keys h' l = wf_keys h l" "wf_keys h' r = wf_keys h r"
    by auto
  moreover from Node.prems have "node_bit (nodes h' a) = node_bit (nodes h a)"
    by (simp add: agree_keys_def)
  moreover note key_of_agree [OF Node.prems]
  ultimately show ?case by (simp del: drop_bit_Suc)
qed

lemma wf_owner_agree: "agree_keys h h' t \<Longrightarrow> wf_owner h' t = wf_owner h t"
proof (induction t)
  case (Leaf a)
  then show ?case by simp
next
  case (Node a l r)
  from Node.prems have "agree_keys h h' l" "agree_keys h h' r"
    by (auto dest: agree_keys_Node)
  with Node.IH have "wf_owner h' l = wf_owner h l" "wf_owner h' r = wf_owner h r"
    by auto
  moreover from Node.prems have "node_bit (nodes h' a) = node_bit (nodes h a)"
    by (simp add: agree_keys_def)
  moreover note key_of_agree [OF Node.prems]
  ultimately show ?case by simp
qed

lemma dup_free_agree: "agree_keys h h' t \<Longrightarrow> dup_free h' t = dup_free h t"
  by (simp add: agree_keys_def dup_free_def)

lemma only_dups_agree: "agree_keys h h' t \<Longrightarrow> only_dups h' t = only_dups h t"
  by (simp add: agree_keys_def only_dups_def)

lemma dups_lowest_agree: "agree_keys h h' t \<Longrightarrow> dups_lowest h' t = dups_lowest h t"
proof (induction t)
  case (Leaf a)
  then show ?case
    by simp
next
  case (Node a l r)
  note sub = agree_keys_Node [OF Node.prems]
  from Node.prems have "node_bit (nodes h' a) = node_bit (nodes h a)"
    by (simp add: agree_keys_def)
  moreover from sub Node.IH have "dups_lowest h' l = dups_lowest h l"
    "dups_lowest h' r = dups_lowest h r"
    by simp_all
  moreover from sub have "only_dups h' l = only_dups h l" "only_dups h' r = only_dups h r"
    by (simp_all add: only_dups_agree)
  ultimately show ?case
    by simp
qed

lemma modifies_agree:
  assumes "modifies h h' new t root s"
    and "new \<notin> set (leaves u)" "new \<notin> set (node_addrs u)"
    and "set (leaves u) \<inter> set (leaves t) = {}" "set (node_addrs u) \<inter> set (node_addrs t) = {}"
    and "\<And>a. a \<in> set (node_addrs u) \<Longrightarrow> Branches a \<noteq> root"
  shows "agree_on h h' u"
proof -
  have "branches (nodes h' a) s' = branches (nodes h a) s'" if "a \<in> set (node_addrs u)" for a s'
  proof -
    from that assms(3,5,6) have "Branches a \<noteq> Branches new" "\<forall>b \<in> set (node_addrs t). Branches a \<noteq> Branches b"
      "Branches a \<noteq> root"
      by auto
    with assms(1) have "rd_b h' (Branches a) s' = rd_b h (Branches a) s'"
      unfolding modifies_def by blast
    then show ?thesis
      by (simp add: rd_b_def)
  qed
  moreover have "leaf_p (nodes h' a) = leaf_p (nodes h a)" if "a \<in> set (leaves u)" for a
  proof -
    from that assms(2,4) have "a \<noteq> new" "a \<notin> set (leaves t)"
      by auto
    with assms(1) show ?thesis
      unfolding modifies_def by blast
  qed
  moreover have "node_p (nodes h' a) = node_p (nodes h a) \<and>
      node_bit (nodes h' a) = node_bit (nodes h a)" if "a \<in> set (node_addrs u)" for a
  proof -
    from that assms(3,5) have "a \<noteq> new" "a \<notin> set (node_addrs t)"
      by auto
    with assms(1) show ?thesis
      unfolding modifies_def by blast
  qed
  moreover from assms(1) have "\<forall>a. key (nodes h' a) = key (nodes h a)"
    unfolding modifies_def by blast
  ultimately show ?thesis
    unfolding agree_on_def by blast
qed

section \<open>Linking a new record at a leaf\<close>

text \<open>
  The descent of \<^verbatim>\<open>eb128_insert\<close> has reached the leaf \<open>old\<close>. The four outcomes, by the
  order of the two keys and the uniqueness flag.
\<close>

lemma less_bits:
  fixes n o' :: u128
  assumes "n < o'"
  defines "b \<equiv> nat (fls128 (n XOR o') - EB_NODE_BITS)"
  shows "\<not> bit n b" "bit o' b"
proof -
  from assms(1) have ne: "n \<noteq> o'" by auto
  note d = msb_diff [OF ne, folded b_def]
  show "\<not> bit n b"
  proof
    assume "bit n b"
    with d(3) have "\<not> bit o' b" by simp
    with d(4) \<open>bit n b\<close> have "o' < n"
      by (intro same_prefix_bit_less [of b]) simp_all
    with assms(1) show False by simp
  qed
  with d(3) show "bit o' b" by simp
qed

lemma rd_b_wr_b: "rd_b (wr_b h r s v) r' s' = (if r' = r \<and> s' = s then v else rd_b h r' s')"
  by (cases r; cases r') (auto simp: rd_b_def wr_b_def)

lemma rd_b_set [simp]:
  "rd_b (set_node_p h a v) r s = rd_b h r s"
  "rd_b (set_leaf_p h a v) r s = rd_b h r s"
  "rd_b (set_bit h a i) r s = rd_b h r s"
  by (cases r; simp add: rd_b_def set_node_p_def set_leaf_p_def set_bit_def)+

lemma node_p_upd [simp]:
  "node_p (nodes (set_node_p h a v) b) = (if b = a then v else node_p (nodes h b))"
  "node_p (nodes (set_leaf_p h a v) b) = node_p (nodes h b)"
  "node_p (nodes (set_bit h a i) b) = node_p (nodes h b)"
  "node_p (nodes (wr_b h r s v) b) = node_p (nodes h b)"
  by (cases r; simp add: wr_b_def set_node_p_def set_leaf_p_def set_bit_def)+

lemma leaf_p_upd [simp]:
  "leaf_p (nodes (set_node_p h a v) b) = leaf_p (nodes h b)"
  "leaf_p (nodes (set_leaf_p h a v) b) = (if b = a then v else leaf_p (nodes h b))"
  "leaf_p (nodes (set_bit h a i) b) = leaf_p (nodes h b)"
  "leaf_p (nodes (wr_b h r s v) b) = leaf_p (nodes h b)"
  by (cases r; simp add: wr_b_def set_node_p_def set_leaf_p_def set_bit_def)+

lemma node_bit_upd [simp]:
  "node_bit (nodes (set_node_p h a v) b) = node_bit (nodes h b)"
  "node_bit (nodes (set_leaf_p h a v) b) = node_bit (nodes h b)"
  "node_bit (nodes (set_bit h a i) b) = (if b = a then i else node_bit (nodes h b))"
  "node_bit (nodes (wr_b h r s v) b) = node_bit (nodes h b)"
  by (cases r; simp add: wr_b_def set_node_p_def set_leaf_p_def set_bit_def)+

lemma key_upd [simp]:
  "key (nodes (set_node_p h a v) b) = key (nodes h b)"
  "key (nodes (set_leaf_p h a v) b) = key (nodes h b)"
  "key (nodes (set_bit h a i) b) = key (nodes h b)"
  "key (nodes (wr_b h r s v) b) = key (nodes h b)"
  by (cases r; simp add: wr_b_def set_node_p_def set_leaf_p_def set_bit_def)+

lemma key_of_upd [simp]:
  "key_of (set_node_p h a v) = key_of h"
  "key_of (set_leaf_p h a v) = key_of h"
  "key_of (set_bit h a i) = key_of h"
  "key_of (wr_b h r s v) = key_of h"
  by (auto simp: key_of_def)

lemma branches_rd_b: "branches (nodes h a) s = rd_b h (Branches a) s"
  by (simp add: rd_b_def)

lemma tree_root_rd_b: "tree_root h s = rd_b h Root s"
  by (simp add: rd_b_def)

lemma at_leaf_less:
  assumes up: "leaf_p (nodes h old) = up"
    and ne: "new \<noteq> old" and rn: "root \<noteq> Branches new"
    and side: "side = (if s then 1 else 0)"
    and lt: "key_of h new < key_of h old"
    and res: "insert_at_leaf (<) h new root_right root side old = (h', r)"
  shows "ins_post h h' r new (Leaf old) (Node new (Leaf new) (Leaf old)) root s up u"
proof -
  let ?b = "fls128 (key_of h new XOR key_of h old) - EB_NODE_BITS"
  from lt have kne: "key_of h new \<noteq> key_of h old" by auto
  note d = msb_diff [OF kne]
  note lb = less_bits [OF lt]
  from side have sd: "(side = 1) = s"
    by simp
  from res lt have r: "r = new" and h': "h' =
      wr_b (set_bit (wr_b (wr_b (set_leaf_p (set_leaf_p (set_node_p h new (leaf_p (nodes h old)))
        new (eb_dotag (Branches new) EB_LEFT)) old (eb_dotag (Branches new) EB_RGHT))
        (Branches new) EB_LEFT (eb_dotag (Branches new) EB_LEAF))
        (Branches new) EB_RGHT (eb_dotag (Branches old) EB_LEAF))
        new ?b) root s (eb_dotag (Branches new) EB_NODE)"
    by (auto simp: insert_at_leaf_def insert_link_def Let_def sd)
  have f: "node_p (nodes h' new) = up" "leaf_p (nodes h' new) = eb_dotag (Branches new) EB_LEFT"
      "leaf_p (nodes h' old) = eb_dotag (Branches new) EB_RGHT"
      "rd_b h' (Branches new) EB_LEFT = eb_dotag (Branches new) EB_LEAF"
      "rd_b h' (Branches new) EB_RGHT = eb_dotag (Branches old) EB_LEAF"
      "node_bit (nodes h' new) = ?b"
      "rd_b h' root s = eb_dotag (Branches new) EB_NODE"
    using up ne rn by (simp_all add: h' rd_b_wr_b EB_LEFT_def EB_RGHT_def)
  have ko: "key_of h' = key_of h"
    by (simp add: h')
  have m: "modifies h h' new (Leaf old) root s"
    unfolding modifies_def by (auto simp: h' rd_b_wr_b)
  have l: "linked h' (rd_b h' root s) up (Node new (Leaf new) (Leaf old))"
    using f by (simp add: branches_rd_b)
  have w: "wf_keys h' (Node new (Leaf new) (Leaf old))"
    using f(6) d lb ko by (simp del: drop_bit_Suc)
  have o: "wf_owner h' (Node new (Leaf new) (Leaf old))"
    using f(6) d(1) ko by simp
  have df: "dup_free h' (Node new (Leaf new) (Leaf old))"
    using f(6) d(1) by (simp add: dup_free_def)
  have dlw: "dups_lowest h' (Node new (Leaf new) (Leaf old))"
    using f(6) d(1) by simp
  have p: "placed h new [old] [new, old]"
    unfolding placed_def using lt by (intro exI [of _ "[]"] exI [of _ "[old]"]) simp
  from lt have "\<not> (\<exists>c \<in> set (leaves (Leaf old)). key_of h c = key_of h new)"
    by auto
  with l w o m df dlw p r show ?thesis
    unfolding ins_post_def by simp
qed

lemma diff_bits:
  fixes n o' :: u128
  defines "b \<equiv> nat (fls128 (n XOR o') - EB_NODE_BITS)"
  shows "n < o' \<Longrightarrow> \<not> bit n b \<and> bit o' b" "o' < n \<Longrightarrow> bit n b \<and> \<not> bit o' b"
proof -
  show "n < o' \<Longrightarrow> \<not> bit n b \<and> bit o' b"
    using less_bits [of n o'] by (simp add: b_def)
  show "o' < n \<Longrightarrow> bit n b \<and> \<not> bit o' b"
    using less_bits [of o' n] by (simp add: b_def xor.commute)
qed

lemma at_leaf_greater:
  assumes up: "leaf_p (nodes h old) = up"
    and ne: "new \<noteq> old" and rn: "root \<noteq> Branches new"
    and side: "side = (if s then 1 else 0)"
    and gt: "key_of h old < key_of h new"
    and res: "insert_at_leaf (<) h new root_right root side old = (h', r)"
  shows "ins_post h h' r new (Leaf old) (Node new (Leaf old) (Leaf new)) root s up u"
proof -
  let ?b = "fls128 (key_of h new XOR key_of h old) - EB_NODE_BITS"
  from gt have kne: "key_of h new \<noteq> key_of h old" and nlt: "\<not> key_of h new < key_of h old"
    by auto
  note d = msb_diff [OF kne]
  note lb = diff_bits(2) [OF gt]
  from side have sd: "(side = 1) = s"
    by simp
  from res nlt kne have r: "r = new" and h': "h' =
      wr_b (set_bit (wr_b (wr_b (set_leaf_p (set_leaf_p (set_node_p h new (leaf_p (nodes h old)))
        old (eb_dotag (Branches new) EB_LEFT)) new (eb_dotag (Branches new) EB_RGHT))
        (Branches new) EB_LEFT (eb_dotag (Branches old) EB_LEAF))
        (Branches new) EB_RGHT (eb_dotag (Branches new) EB_LEAF))
        new ?b) root s (eb_dotag (Branches new) EB_NODE)"
    by (auto simp: insert_at_leaf_def insert_link_def Let_def sd)
  have f: "node_p (nodes h' new) = up" "leaf_p (nodes h' new) = eb_dotag (Branches new) EB_RGHT"
      "leaf_p (nodes h' old) = eb_dotag (Branches new) EB_LEFT"
      "rd_b h' (Branches new) EB_LEFT = eb_dotag (Branches old) EB_LEAF"
      "rd_b h' (Branches new) EB_RGHT = eb_dotag (Branches new) EB_LEAF"
      "node_bit (nodes h' new) = ?b"
      "rd_b h' root s = eb_dotag (Branches new) EB_NODE"
    using up ne rn by (simp_all add: h' rd_b_wr_b EB_LEFT_def EB_RGHT_def)
  have ko: "key_of h' = key_of h"
    by (simp add: h')
  have m: "modifies h h' new (Leaf old) root s"
    unfolding modifies_def by (auto simp: h' rd_b_wr_b)
  have l: "linked h' (rd_b h' root s) up (Node new (Leaf old) (Leaf new))"
    using f by (simp add: branches_rd_b)
  have w: "wf_keys h' (Node new (Leaf old) (Leaf new))"
    using f(6) d lb ko by (simp del: drop_bit_Suc)
  have o: "wf_owner h' (Node new (Leaf old) (Leaf new))"
    using f(6) d(1) ko kne by simp
  have df: "dup_free h' (Node new (Leaf old) (Leaf new))"
    using f(6) d(1) by (simp add: dup_free_def)
  have dlw: "dups_lowest h' (Node new (Leaf old) (Leaf new))"
    using f(6) d(1) by simp
  have p: "placed h new [old] [old, new]"
    unfolding placed_def using gt by (intro exI [of _ "[old]"] exI [of _ "[]"]) simp
  from kne have "\<not> (\<exists>c \<in> set (leaves (Leaf old)). key_of h c = key_of h new)"
    by auto
  with l w o m df dlw p r show ?thesis
    unfolding ins_post_def by simp
qed

lemma at_leaf_equal_dup:
  assumes up: "leaf_p (nodes h old) = up"
    and ne: "new \<noteq> old" and rn: "root \<noteq> Branches new"
    and side: "side = (if s then 1 else 0)"
    and eq: "key_of h new = key_of h old" and nu: "\<not> eb_gettag root_right"
    and res: "insert_at_leaf (<) h new root_right root side old = (h', r)"
  shows "ins_post h h' r new (Leaf old) (Node new (Leaf old) (Leaf new)) root s up
           (eb_gettag root_right)"
proof -
  from side have sd: "(side = 1) = s"
    by simp
  from res eq nu have r: "r = new" and h': "h' =
      wr_b (set_bit (wr_b (wr_b (set_leaf_p (set_leaf_p (set_node_p h new (leaf_p (nodes h old)))
        old (eb_dotag (Branches new) EB_LEFT)) new (eb_dotag (Branches new) EB_RGHT))
        (Branches new) EB_LEFT (eb_dotag (Branches old) EB_LEAF))
        (Branches new) EB_RGHT (eb_dotag (Branches new) EB_LEAF))
        new (- 1)) root s (eb_dotag (Branches new) EB_NODE)"
    by (auto simp: insert_at_leaf_def Let_def sd)
  have f: "node_p (nodes h' new) = up" "leaf_p (nodes h' new) = eb_dotag (Branches new) EB_RGHT"
      "leaf_p (nodes h' old) = eb_dotag (Branches new) EB_LEFT"
      "rd_b h' (Branches new) EB_LEFT = eb_dotag (Branches old) EB_LEAF"
      "rd_b h' (Branches new) EB_RGHT = eb_dotag (Branches new) EB_LEAF"
      "node_bit (nodes h' new) = - 1"
      "rd_b h' root s = eb_dotag (Branches new) EB_NODE"
    using up ne rn by (simp_all add: h' rd_b_wr_b EB_LEFT_def EB_RGHT_def)
  have ko: "key_of h' = key_of h"
    by (simp add: h')
  have m: "modifies h h' new (Leaf old) root s"
    unfolding modifies_def by (auto simp: h' rd_b_wr_b)
  have l: "linked h' (rd_b h' root s) up (Node new (Leaf old) (Leaf new))"
    using f by (simp add: branches_rd_b)
  have w: "wf_keys h' (Node new (Leaf old) (Leaf new))"
    using f(6) ko eq by simp
  have o: "wf_owner h' (Node new (Leaf old) (Leaf new))"
    using f(6) by simp
  have dlw: "dups_lowest h' (Node new (Leaf old) (Leaf new))"
    using f(6) by (simp add: only_dups_def)
  have p: "placed h new [old] [old, new]"
    unfolding placed_def using eq by (intro exI [of _ "[old]"] exI [of _ "[]"]) simp
  from l w o m dlw p r nu show ?thesis
    unfolding ins_post_def by simp
qed

lemma at_leaf_equal_unique:
  assumes up: "leaf_p (nodes h old) = up"
    and rd: "rd_b h root s = eb_dotag (Branches old) EB_LEAF"
    and ne: "new \<noteq> old"
    and eq: "key_of h new = key_of h old" and un: "eb_gettag root_right"
    and res: "insert_at_leaf (<) h new root_right root side old = (h', r)"
  shows "ins_post h h' r new (Leaf old) (Leaf old) root s up (eb_gettag root_right)"
proof -
  from res eq un have r: "r = old" and h': "h' = set_node_p h new (leaf_p (nodes h old))"
    by (auto simp: insert_at_leaf_def Let_def)
  have m: "modifies h h' new (Leaf old) root s"
    unfolding modifies_def by (auto simp: h')
  have l: "linked h' (rd_b h' root s) up (Leaf old)"
    using up rd ne by (simp add: h')
  have n: "\<forall>a. a \<noteq> new \<longrightarrow> nodes h' a = nodes h a" "tree_root h' = tree_root h"
    by (simp_all add: h' set_node_p_def)
  from l m n r eq un show ?thesis
    unfolding ins_post_def by (simp add: dup_free_def)
qed

section \<open>Linking a new record above a node\<close>

text \<open>
  The descent has stopped at the node \<open>old\<close>, because it is a duplicate sentinel or because
  the new key differs from its key above its bit.
\<close>

lemma above_less:
  assumes lk: "linked h troot up (Node old l r)"
    and fresh: "new \<notin> set (leaves (Node old l r))" "new \<notin> set (node_addrs (Node old l r))"
    and rt: "root \<noteq> Branches new" "\<forall>a \<in> set (node_addrs (Node old l r)). root \<noteq> Branches a"
    and dist: "distinct (node_addrs (Node old l r))"
    and side: "side = (if s then 1 else 0)"
    and wk: "wf_keys h (Node old l r)" and wo: "wf_owner h (Node old l r)"
    and df: "u \<longrightarrow> dup_free h (Node old l r)"
    and lt: "key_of h new < key_of h old"
    and sep: "\<forall>c \<in> set (leaves (Node old l r)).
        drop_bit (nat (fls128 (key_of h new XOR key_of h old) - EB_NODE_BITS)) (key_of h c) =
        drop_bit (nat (fls128 (key_of h new XOR key_of h old) - EB_NODE_BITS)) (key_of h old)"
    and res: "insert_above_node (<) h new root side old = Inr (h', r')"
  shows "ins_post h h' r' new (Node old l r) (Node new (Leaf new) (Node old l r)) root s up u"
proof -
  let ?s = "Node old l r"
  let ?b = "fls128 (key_of h new XOR key_of h old) - EB_NODE_BITS"
  let ?n = "nat ?b"
  from lt have kne: "key_of h new \<noteq> key_of h old" by auto
  note d = msb_diff [OF kne]
  note lb = diff_bits(1) [OF lt]
  from side have sd: "(side = 1) = s"
    by simp
  from fresh dist rt have ne: "new \<noteq> old" and ro: "root \<noteq> Branches old"
    and ol: "old \<notin> set (node_addrs l)" "old \<notin> set (node_addrs r)"
    by auto
  from lk have up: "node_p (nodes h old) = up"
    and ll: "linked h (branches (nodes h old) EB_LEFT) (eb_dotag (Branches old) EB_LEFT) l"
    and lr: "linked h (branches (nodes h old) EB_RGHT) (eb_dotag (Branches old) EB_RGHT) r"
    by simp_all
  from res lt have r: "r' = new" and h': "h' =
      wr_b (set_bit (wr_b (wr_b (set_node_p (set_leaf_p (set_node_p h new (node_p (nodes h old)))
        new (eb_dotag (Branches new) EB_LEFT)) old (eb_dotag (Branches new) EB_RGHT))
        (Branches new) EB_LEFT (eb_dotag (Branches new) EB_LEAF))
        (Branches new) EB_RGHT (eb_dotag (Branches old) EB_NODE))
        new ?b) root s (eb_dotag (Branches new) EB_NODE)"
    by (auto simp: insert_above_node_def insert_link_def Let_def sd)
  have f: "node_p (nodes h' new) = up" "leaf_p (nodes h' new) = eb_dotag (Branches new) EB_LEFT"
      "node_p (nodes h' old) = eb_dotag (Branches new) EB_RGHT"
      "rd_b h' (Branches new) EB_LEFT = eb_dotag (Branches new) EB_LEAF"
      "rd_b h' (Branches new) EB_RGHT = eb_dotag (Branches old) EB_NODE"
      "node_bit (nodes h' new) = ?b"
      "rd_b h' root s = eb_dotag (Branches new) EB_NODE"
      "\<And>s'. rd_b h' (Branches old) s' = rd_b h (Branches old) s'"
    using up ne rt(1) ro by (simp_all add: h' rd_b_wr_b EB_LEFT_def EB_RGHT_def)
  have ko: "key_of h' = key_of h"
    by (simp add: h')
  have m: "modifies h h' new ?s root s"
    unfolding modifies_def by (auto simp: h' rd_b_wr_b)
  have ag: "agree_on h h' v"
    if "new \<notin> set (leaves v)" "new \<notin> set (node_addrs v)" "old \<notin> set (node_addrs v)"
      "\<forall>a \<in> set (node_addrs v). root \<noteq> Branches a" for v
    using that unfolding agree_on_def by (auto simp: h' branches_rd_b rd_b_wr_b)
  from fresh ol rt(2) have "agree_on h h' l" "agree_on h h' r"
    by (auto intro!: ag)
  with ll lr have "linked h' (rd_b h (Branches old) EB_LEFT) (eb_dotag (Branches old) EB_LEFT) l"
    "linked h' (rd_b h (Branches old) EB_RGHT) (eb_dotag (Branches old) EB_RGHT) r"
    by (simp_all add: linked_agree branches_rd_b)
  with f have l: "linked h' (rd_b h' root s) up (Node new (Leaf new) ?s)"
    by (simp add: branches_rd_b)
  have ak: "agree_keys h h' ?s"
    using fresh unfolding agree_keys_def by (auto simp: h')
  have pre: "\<forall>c \<in> set (leaves ?s).
      drop_bit (Suc ?n) (key_of h c) = drop_bit (Suc ?n) (key_of h new) \<and> bit (key_of h c) ?n"
  proof
    fix c
    assume "c \<in> set (leaves ?s)"
    with sep have e: "drop_bit ?n (key_of h c) = drop_bit ?n (key_of h old)"
      by blast
    have "drop_bit (Suc ?n) (key_of h c) = drop_bit (Suc ?n) (key_of h old)"
      by (rule drop_bit_eq_mono [OF e]) simp
    moreover have "bit (key_of h c) ?n = bit (key_of h old) ?n"
      by (rule drop_bit_eq_bit [OF e]) simp
    ultimately show "drop_bit (Suc ?n) (key_of h c) = drop_bit (Suc ?n) (key_of h new) \<and>
        bit (key_of h c) ?n"
      using d(4) lb by (simp del: drop_bit_Suc)
  qed
  from d(1,2) have b128: "?b < 128"
    by linarith
  have w: "wf_keys h' (Node new (Leaf new) ?s)"
    using f(6) d(1) b128 lb ko pre wk wf_keys_agree [OF ak]
    by (simp del: drop_bit_Suc wf_keys.simps add: wf_keys.simps(1) wf_keys.simps(2) [of h' new])
  have dfr: "u \<longrightarrow> dup_free h' (Node new (Leaf new) ?s)"
    using f(6) d(1) df dup_free_agree [OF ak] by (simp add: dup_free_def)
  have gt_all: "\<forall>z \<in> set (leaves ?s). key_of h new < key_of h z"
  proof
    fix z
    assume "z \<in> set (leaves ?s)"
    with pre have "drop_bit (Suc ?n) (key_of h new) = drop_bit (Suc ?n) (key_of h z)"
      "bit (key_of h z) ?n"
      by auto
    with lb show "key_of h new < key_of h z"
      by (intro same_prefix_bit_less [of ?n]) simp_all
  qed
  have o: "wf_owner h' (Node new (Leaf new) ?s)"
    using f(6) d(1) ko wo wf_owner_agree [OF ak]
    by (simp del: wf_owner.simps add: wf_owner.simps(1) wf_owner.simps(2) [of h' new])
  from gt_all have p: "placed h new (leaves ?s) (leaves (Node new (Leaf new) ?s))"
    unfolding placed_def by (intro exI [of _ "[]"] exI [of _ "leaves ?s"]) simp
  from gt_all have nk: "\<not> (\<exists>c \<in> set (leaves ?s). key_of h c = key_of h new)"
    by (metis less_irrefl)
  have dlw: "dups_lowest h ?s \<longrightarrow> dups_lowest h' (Node new (Leaf new) ?s)"
    using f(6) d(1) dups_lowest_agree [OF ak]
    by (simp del: dups_lowest.simps add: dups_lowest.simps(1) dups_lowest.simps(2) [of h' new])
  from nk l w o m dfr dlw p r fresh dist show ?thesis
    unfolding ins_post_def by simp
qed

lemma above_greater:
  assumes lk: "linked h troot up (Node old l r)"
    and fresh: "new \<notin> set (leaves (Node old l r))" "new \<notin> set (node_addrs (Node old l r))"
    and rt: "root \<noteq> Branches new" "\<forall>a \<in> set (node_addrs (Node old l r)). root \<noteq> Branches a"
    and dist: "distinct (node_addrs (Node old l r))"
    and side: "side = (if s then 1 else 0)"
    and wk: "wf_keys h (Node old l r)" and wo: "wf_owner h (Node old l r)"
    and df: "u \<longrightarrow> dup_free h (Node old l r)"
    and gt: "key_of h old < key_of h new"
    and sep: "\<forall>c \<in> set (leaves (Node old l r)).
        drop_bit (nat (fls128 (key_of h new XOR key_of h old) - EB_NODE_BITS)) (key_of h c) =
        drop_bit (nat (fls128 (key_of h new XOR key_of h old) - EB_NODE_BITS)) (key_of h old)"
    and res: "insert_above_node (<) h new root side old = Inr (h', r')"
  shows "ins_post h h' r' new (Node old l r) (Node new (Node old l r) (Leaf new)) root s up u"
proof -
  let ?s = "Node old l r"
  let ?b = "fls128 (key_of h new XOR key_of h old) - EB_NODE_BITS"
  let ?n = "nat ?b"
  from gt have kne: "key_of h new \<noteq> key_of h old" and nlt: "\<not> key_of h new < key_of h old"
    by auto
  note d = msb_diff [OF kne]
  note lb = diff_bits(2) [OF gt]
  from side have sd: "(side = 1) = s"
    by simp
  from fresh dist rt have ne: "new \<noteq> old" and ro: "root \<noteq> Branches old"
    and ol: "old \<notin> set (node_addrs l)" "old \<notin> set (node_addrs r)"
    by auto
  from lk have up: "node_p (nodes h old) = up"
    and ll: "linked h (branches (nodes h old) EB_LEFT) (eb_dotag (Branches old) EB_LEFT) l"
    and lr: "linked h (branches (nodes h old) EB_RGHT) (eb_dotag (Branches old) EB_RGHT) r"
    by simp_all
  from res nlt gt have r: "r' = new" and h': "h' =
      wr_b (set_bit (wr_b (wr_b (set_leaf_p (set_node_p (set_node_p h new (node_p (nodes h old)))
        old (eb_dotag (Branches new) EB_LEFT)) new (eb_dotag (Branches new) EB_RGHT))
        (Branches new) EB_LEFT (eb_dotag (Branches old) EB_NODE))
        (Branches new) EB_RGHT (eb_dotag (Branches new) EB_LEAF))
        new ?b) root s (eb_dotag (Branches new) EB_NODE)"
    by (auto simp: insert_above_node_def insert_link_def Let_def sd)
  have f: "node_p (nodes h' new) = up" "leaf_p (nodes h' new) = eb_dotag (Branches new) EB_RGHT"
      "node_p (nodes h' old) = eb_dotag (Branches new) EB_LEFT"
      "rd_b h' (Branches new) EB_LEFT = eb_dotag (Branches old) EB_NODE"
      "rd_b h' (Branches new) EB_RGHT = eb_dotag (Branches new) EB_LEAF"
      "node_bit (nodes h' new) = ?b"
      "rd_b h' root s = eb_dotag (Branches new) EB_NODE"
      "\<And>s'. rd_b h' (Branches old) s' = rd_b h (Branches old) s'"
    using up ne rt(1) ro by (simp_all add: h' rd_b_wr_b EB_LEFT_def EB_RGHT_def)
  have ko: "key_of h' = key_of h"
    by (simp add: h')
  have m: "modifies h h' new ?s root s"
    unfolding modifies_def by (auto simp: h' rd_b_wr_b)
  have ag: "agree_on h h' v"
    if "new \<notin> set (leaves v)" "new \<notin> set (node_addrs v)" "old \<notin> set (node_addrs v)"
      "\<forall>a \<in> set (node_addrs v). root \<noteq> Branches a" for v
    using that unfolding agree_on_def by (auto simp: h' branches_rd_b rd_b_wr_b)
  from fresh ol rt(2) have "agree_on h h' l" "agree_on h h' r"
    by (auto intro!: ag)
  with ll lr have "linked h' (rd_b h (Branches old) EB_LEFT) (eb_dotag (Branches old) EB_LEFT) l"
    "linked h' (rd_b h (Branches old) EB_RGHT) (eb_dotag (Branches old) EB_RGHT) r"
    by (simp_all add: linked_agree branches_rd_b)
  with f have l: "linked h' (rd_b h' root s) up (Node new ?s (Leaf new))"
    by (simp add: branches_rd_b)
  have ak: "agree_keys h h' ?s"
    using fresh unfolding agree_keys_def by (auto simp: h')
  have pre: "\<forall>c \<in> set (leaves ?s).
      drop_bit (Suc ?n) (key_of h c) = drop_bit (Suc ?n) (key_of h new) \<and> \<not> bit (key_of h c) ?n"
  proof
    fix c
    assume "c \<in> set (leaves ?s)"
    with sep have e: "drop_bit ?n (key_of h c) = drop_bit ?n (key_of h old)"
      by blast
    have "drop_bit (Suc ?n) (key_of h c) = drop_bit (Suc ?n) (key_of h old)"
      by (rule drop_bit_eq_mono [OF e]) simp
    moreover have "bit (key_of h c) ?n = bit (key_of h old) ?n"
      by (rule drop_bit_eq_bit [OF e]) simp
    ultimately show "drop_bit (Suc ?n) (key_of h c) = drop_bit (Suc ?n) (key_of h new) \<and>
        \<not> bit (key_of h c) ?n"
      using d(4) lb by (simp del: drop_bit_Suc)
  qed
  from d(1,2) have b128: "?b < 128"
    by linarith
  have w: "wf_keys h' (Node new ?s (Leaf new))"
    using f(6) d(1) b128 lb ko pre wk wf_keys_agree [OF ak]
    by (simp del: drop_bit_Suc wf_keys.simps add: wf_keys.simps(1) wf_keys.simps(2) [of h' new])
  have dfr: "u \<longrightarrow> dup_free h' (Node new ?s (Leaf new))"
    using f(6) d(1) df dup_free_agree [OF ak] by (simp add: dup_free_def)
  have lt_all: "\<forall>z \<in> set (leaves ?s). key_of h z < key_of h new"
  proof
    fix z
    assume "z \<in> set (leaves ?s)"
    with pre have "drop_bit (Suc ?n) (key_of h z) = drop_bit (Suc ?n) (key_of h new)"
      "\<not> bit (key_of h z) ?n"
      by auto
    with lb show "key_of h z < key_of h new"
      by (intro same_prefix_bit_less [of ?n]) simp_all
  qed
  then have nk: "\<not> (\<exists>c \<in> set (leaves ?s). key_of h c = key_of h new)"
    by (metis less_irrefl)
  then have "List.find (\<lambda>c. key_of h c = key_of h new) (leaves ?s) = None"
    by (simp only: find_None_iff) blast
  then have fn: "List.find (\<lambda>c. key_of h c = key_of h new) (leaves ?s @ [new]) = Some new"
    by (simp add: find_append del: leaves.simps)
  have o: "wf_owner h' (Node new ?s (Leaf new))"
    using f(6) d(1) ko wo wf_owner_agree [OF ak] fn
    by (simp del: wf_owner.simps add: wf_owner.simps(1) wf_owner.simps(2) [of h' new])
  from lt_all have "\<forall>y \<in> set (leaves ?s). key_of h y \<le> key_of h new"
    by (metis less_imp_le)
  then have p: "placed h new (leaves ?s) (leaves (Node new ?s (Leaf new)))"
    unfolding placed_def by (intro exI [of _ "leaves ?s"] exI [of _ "[]"]) simp
  have dlw: "dups_lowest h ?s \<longrightarrow> dups_lowest h' (Node new ?s (Leaf new))"
    using f(6) d(1) dups_lowest_agree [OF ak]
    by (simp del: dups_lowest.simps add: dups_lowest.simps(1) dups_lowest.simps(2) [of h' new])
  from nk l w o m dfr dlw p r fresh dist show ?thesis
    unfolding ins_post_def by simp
qed

lemma above_dup:
  assumes lk: "linked h troot up (Node old l r)"
    and upr: "up = eb_dotag root s"
    and fresh: "new \<notin> set (leaves (Node old l r))" "new \<notin> set (node_addrs (Node old l r))"
    and rt: "root \<noteq> Branches new" "\<forall>a \<in> set (node_addrs (Node old l r)). root \<noteq> Branches a"
    and dist: "distinct (node_addrs (Node old l r))"
    and wk: "wf_keys h (Node old l r)" and wo: "wf_owner h (Node old l r)"
    and neg: "node_bit (nodes h old) < 0"
    and eq: "key_of h new = key_of h old"
    and res: "insert_above_node (<) h new root side old = Inr (h', r')"
  shows "ins_post h h' r' new (Node old l r) (Node new (Node old l r) (Leaf new)) root s up False"
proof -
  let ?s = "Node old l r"
  from fresh dist rt have ne: "new \<noteq> old" and ro: "root \<noteq> Branches old"
    and ol: "old \<notin> set (node_addrs l)" "old \<notin> set (node_addrs r)"
    by auto
  from lk have up: "node_p (nodes h old) = up"
    and ll: "linked h (branches (nodes h old) EB_LEFT) (eb_dotag (Branches old) EB_LEFT) l"
    and lr: "linked h (branches (nodes h old) EB_RGHT) (eb_dotag (Branches old) EB_RGHT) r"
    by simp_all
  from up upr have par: "node_p (nodes h old) = Troot (Some root) s"
    by (simp add: eb_dotag_def)
  from res eq have r: "r' = new" and h': "h' =
      wr_b (wr_b (set_node_p (set_leaf_p (set_node_p
        (wr_b (set_bit (set_node_p h new (node_p (nodes h old))) new (- 1))
           root s (eb_dotag (Branches new) EB_NODE))
        new (Troot (Some root) s)) new (eb_dotag (Branches new) EB_RGHT))
        old (eb_dotag (Branches new) EB_LEFT))
        (Branches new) EB_LEFT (eb_dotag (Branches old) EB_NODE))
        (Branches new) EB_RGHT (eb_dotag (Branches new) EB_LEAF)"
    using ne by (auto simp: insert_above_node_def eb_insert_dup_def Let_def par)
  have f: "node_p (nodes h' new) = up" "leaf_p (nodes h' new) = eb_dotag (Branches new) EB_RGHT"
      "node_p (nodes h' old) = eb_dotag (Branches new) EB_LEFT"
      "rd_b h' (Branches new) EB_LEFT = eb_dotag (Branches old) EB_NODE"
      "rd_b h' (Branches new) EB_RGHT = eb_dotag (Branches new) EB_LEAF"
      "node_bit (nodes h' new) = - 1"
      "rd_b h' root s = eb_dotag (Branches new) EB_NODE"
      "\<And>s'. rd_b h' (Branches old) s' = rd_b h (Branches old) s'"
    using upr ne rt(1) ro by (simp_all add: h' rd_b_wr_b EB_LEFT_def EB_RGHT_def eb_dotag_def)
  have ko: "key_of h' = key_of h"
    by (simp add: h')
  have m: "modifies h h' new ?s root s"
    unfolding modifies_def by (auto simp: h' rd_b_wr_b)
  have ag: "agree_on h h' v"
    if "new \<notin> set (leaves v)" "new \<notin> set (node_addrs v)" "old \<notin> set (node_addrs v)"
      "\<forall>a \<in> set (node_addrs v). root \<noteq> Branches a" for v
    using that unfolding agree_on_def by (auto simp: h' branches_rd_b rd_b_wr_b)
  from fresh ol rt(2) have "agree_on h h' l" "agree_on h h' r"
    by (auto intro!: ag)
  with ll lr have "linked h' (rd_b h (Branches old) EB_LEFT) (eb_dotag (Branches old) EB_LEFT) l"
    "linked h' (rd_b h (Branches old) EB_RGHT) (eb_dotag (Branches old) EB_RGHT) r"
    by (simp_all add: linked_agree branches_rd_b)
  with f have l: "linked h' (rd_b h' root s) up (Node new ?s (Leaf new))"
    by (simp add: branches_rd_b)
  from wk neg have all: "\<forall>c \<in> set (leaves ?s). key_of h c = key_of h old"
    by simp
  with eq have w: "wf_keys h' (Node new ?s (Leaf new))"
    using f(6) ko by simp
  have o: "wf_owner h' (Node new ?s (Leaf new))"
    using f(6) by simp
  from all eq have "\<forall>y \<in> set (leaves ?s). key_of h y \<le> key_of h new"
    by simp
  then have p: "placed h new (leaves ?s) (leaves (Node new ?s (Leaf new)))"
    unfolding placed_def by (intro exI [of _ "leaves ?s"] exI [of _ "[]"]) simp
  have ak: "agree_keys h h' ?s"
    using fresh unfolding agree_keys_def by (auto simp: h')
  from neg have "dups_lowest h ?s \<longrightarrow> only_dups h ?s"
    by (auto simp: only_dups_def)
  with only_dups_agree [OF ak]
  have dlw: "dups_lowest h ?s \<longrightarrow> dups_lowest h' (Node new ?s (Leaf new))"
    using f(6)
    by (simp del: dups_lowest.simps add: dups_lowest.simps(2) [of h' new] only_dups_def)
  from l w o m dlw p r fresh dist show ?thesis
    unfolding ins_post_def by simp
qed

section \<open>Insertion below a node\<close>

text \<open>
  An insertion into the left or the right subtree of an ordinary node whose prefix the
  new key shares is an insertion into the subtree of that node.
\<close>

lemma find_insert:
  assumes "List.find P (A @ zs) = Some a" "P new \<Longrightarrow> List.find P A \<noteq> None"
  shows "List.find P (A @ new # zs) = Some a"
  using assms by (cases "List.find P A") (auto simp: find_append)

lemma ins_post_leaves:
  assumes "ins_post h h' r' new t t' root s up u"
  shows "set (leaves t') \<subseteq> insert new (set (leaves t))"
proof (cases "u \<and> (\<exists>c \<in> set (leaves t). key_of h c = key_of h new)")
  case True
  with assms show ?thesis
    unfolding ins_post_def by auto
next
  case False
  with assms have "placed h new (leaves t) (leaves t')"
    unfolding ins_post_def by auto
  then show ?thesis
    unfolding placed_def by auto
qed

lemma ins_post_keys: "ins_post h h' r' new t t' root s up u \<Longrightarrow> key_of h' = key_of h"
  unfolding ins_post_def modifies_def key_of_def by auto

lemma lift_left:
  assumes child: "ins_post h h' r' new l l' (Branches old) EB_LEFT (eb_dotag (Branches old) EB_LEFT) u"
    and lk: "linked h troot up (Node old l r)" and rd: "rd_b h root s = troot"
    and fresh: "new \<notin> set (leaves (Node old l r))" "new \<notin> set (node_addrs (Node old l r))"
    and rt: "root \<noteq> Branches new" "\<forall>a \<in> set (node_addrs (Node old l r)). root \<noteq> Branches a"
    and dist: "distinct (leaves (Node old l r))" "distinct (node_addrs (Node old l r))"
    and wk: "wf_keys h (Node old l r)" and wo: "wf_owner h (Node old l r)"
    and df: "u \<longrightarrow> dup_free h (Node old l r)"
    and pos: "0 \<le> node_bit (nodes h old)"
    and near: "drop_bit (Suc (nat (node_bit (nodes h old)))) (key_of h new) =
               drop_bit (Suc (nat (node_bit (nodes h old)))) (key_of h old)"
    and nb: "\<not> bit (key_of h new) (nat (node_bit (nodes h old)))"
  shows "ins_post h h' r' new (Node old l r) (Node old l' r) root s up u"
proof -
  let ?n = "nat (node_bit (nodes h old))"
  let ?P = "\<lambda>c. key_of h c = key_of h old"
  from child have l': "linked h' (rd_b h' (Branches old) EB_LEFT) (eb_dotag (Branches old) EB_LEFT) l'"
    and wl': "wf_keys h' l'" and ol': "wf_owner h' l'"
    and m: "modifies h h' new l (Branches old) EB_LEFT"
    and dl': "u \<longrightarrow> dup_free h' l'"
    unfolding ins_post_def by simp_all
  note ko = ins_post_keys [OF child]
  from fresh dist rt have ne: "new \<noteq> old" and ro: "root \<noteq> Branches old"
    and ol: "old \<notin> set (node_addrs l)" "old \<notin> set (node_addrs r)"
    and rl: "\<forall>a \<in> set (node_addrs l). root \<noteq> Branches a"
    by auto
  from lk have troot: "troot = eb_dotag (Branches old) EB_NODE"
    and up: "node_p (nodes h old) = up"
    and lr: "linked h (branches (nodes h old) EB_RGHT) (eb_dotag (Branches old) EB_RGHT) r"
    by simp_all
  from pos wk have b128: "node_bit (nodes h old) < 128"
    and pl: "\<forall>c \<in> set (leaves l). drop_bit (Suc ?n) (key_of h c) = drop_bit (Suc ?n) (key_of h old) \<and>
               \<not> bit (key_of h c) ?n"
    and pr: "\<forall>c \<in> set (leaves r). drop_bit (Suc ?n) (key_of h c) = drop_bit (Suc ?n) (key_of h old) \<and>
               bit (key_of h c) ?n"
    and wr: "wf_keys h r"
    by (simp_all del: drop_bit_Suc)
  from pos wo have own: "List.find ?P (leaves l @ leaves r) = Some old" and owr: "wf_owner h r"
    by simp_all
  have gt_r: "\<forall>z \<in> set (leaves r). key_of h new < key_of h z"
  proof
    fix z
    assume "z \<in> set (leaves r)"
    with pr near have "drop_bit (Suc ?n) (key_of h new) = drop_bit (Suc ?n) (key_of h z)"
      "bit (key_of h z) ?n"
      by auto
    with nb show "key_of h new < key_of h z"
      by (intro same_prefix_bit_less [of ?n]) simp_all
  qed
  from m have mk: "\<forall>a. key (nodes h' a) = key (nodes h a)"
    and mb: "\<forall>a. a \<noteq> new \<longrightarrow> node_bit (nodes h' a) = node_bit (nodes h a)"
    and mn: "\<forall>a. a \<noteq> new \<longrightarrow> a \<notin> set (node_addrs l) \<longrightarrow> node_p (nodes h' a) = node_p (nodes h a)"
    and mr: "\<forall>r' s'. r' \<noteq> Branches new \<longrightarrow> (\<forall>a \<in> set (node_addrs l). r' \<noteq> Branches a) \<longrightarrow>
         (r' = Branches old \<longrightarrow> s' \<noteq> EB_LEFT) \<longrightarrow> rd_b h' r' s' = rd_b h r' s'"
    unfolding modifies_def by blast+
  from mr rt(1) rl ro have rd': "rd_b h' root s = rd_b h root s"
    by auto
  from mn ne ol have up': "node_p (nodes h' old) = node_p (nodes h old)"
    by auto
  from mb ne have bit': "node_bit (nodes h' old) = node_bit (nodes h old)"
    by auto
  from mr ne ol have rr: "rd_b h' (Branches old) EB_RGHT = rd_b h (Branches old) EB_RGHT"
    by (auto simp: EB_LEFT_def EB_RGHT_def)
  have ar: "agree_on h h' r"
    using m fresh dist by (intro modifies_agree [where t = l and root = "Branches old"]) auto
  with lr have "linked h' (rd_b h (Branches old) EB_RGHT) (eb_dotag (Branches old) EB_RGHT) r"
    by (simp add: linked_agree branches_rd_b)
  with l' rd' rd troot up up' rr have lk': "linked h' (rd_b h' root s) up (Node old l' r)"
    by (simp add: branches_rd_b)
  note sub = ins_post_leaves [OF child]
  have pl': "\<forall>c \<in> set (leaves l'). drop_bit (Suc ?n) (key_of h c) = drop_bit (Suc ?n) (key_of h old) \<and>
               \<not> bit (key_of h c) ?n"
    using sub pl near nb by auto
  have wk': "wf_keys h' (Node old l' r)"
    using pos b128 bit' ko pl' pr wl' wr wf_keys_agree [OF agree_on_keys [OF ar]]
    by (simp del: drop_bit_Suc)
  have m': "modifies h h' new (Node old l r) root s"
    using m unfolding modifies_def by auto
  have dfr: "u \<longrightarrow> dup_free h' (Node old l' r)"
    using df dl' pos bit' dup_free_agree [OF agree_on_keys [OF ar]]
    by (auto simp: dup_free_def)
  from child have "dups_lowest h l \<longrightarrow> dups_lowest h' l'"
    unfolding ins_post_def by simp
  with pos bit' dups_lowest_agree [OF agree_on_keys [OF ar]]
  have dlw: "dups_lowest h (Node old l r) \<longrightarrow> dups_lowest h' (Node old l' r)"
    by simp
  from gt_r have nr: "\<not> (\<exists>c \<in> set (leaves r). key_of h c = key_of h new)"
    by (metis less_irrefl)
  then have st: "(\<exists>c \<in> set (leaves (Node old l r)). key_of h c = key_of h new) =
      (\<exists>c \<in> set (leaves l). key_of h c = key_of h new)"
    by auto
  show ?thesis
  proof (cases "u \<and> (\<exists>c \<in> set (leaves l). key_of h c = key_of h new)")
    case True
    with child have same: "l' = l" and rest: "r' \<in> set (leaves l)" "key_of h r' = key_of h new"
      "\<forall>a. a \<noteq> new \<longrightarrow> nodes h' a = nodes h a" "tree_root h' = tree_root h"
      unfolding ins_post_def by simp_all
    from own same ko pos bit' ol' owr wf_owner_agree [OF agree_on_keys [OF ar]]
    have "wf_owner h' (Node old l' r)"
      by simp
    with lk' wk' m' dfr dlw True st same rest show ?thesis
      unfolding ins_post_def by simp
  next
    case False
    with child have r': "r' = new" and p: "placed h new (leaves l) (leaves l')"
      and sn: "set (node_addrs l') = insert new (set (node_addrs l))"
      and dn: "distinct (node_addrs l) \<longrightarrow> new \<notin> set (node_addrs l) \<longrightarrow> distinct (node_addrs l')"
      unfolding ins_post_def by simp_all
    from p obtain ys zs where ls: "leaves l = ys @ zs" "leaves l' = ys @ new # zs"
      and ys: "\<forall>y \<in> set ys. key_of h y \<le> key_of h new"
      and zs: "\<forall>z \<in> set zs. key_of h new < key_of h z"
      unfolding placed_def by blast
    from zs gt_r have zr: "\<forall>z \<in> set (zs @ leaves r). key_of h new < key_of h z"
      by auto
    with ls ys have p': "placed h new (leaves (Node old l r)) (leaves (Node old l' r))"
      unfolding placed_def by (intro exI [of _ ys] exI [of _ "zs @ leaves r"]) simp
    from own ls have f0: "List.find ?P (ys @ (zs @ leaves r)) = Some old"
      by simp
    have "List.find ?P ys \<noteq> None" if "?P new"
    proof -
      from f0 have "old \<in> set (ys @ zs @ leaves r)"
        by (metis find_Some_iff nth_mem append.assoc)
      moreover from that zr have "old \<notin> set (zs @ leaves r)"
        by (metis less_irrefl)
      ultimately have "old \<in> set ys"
        by auto
      then show ?thesis
        by (auto simp: find_None_iff)
    qed
    with f0 have "List.find ?P (ys @ new # (zs @ leaves r)) = Some old"
      by (rule find_insert)
    with ls pos bit' ko ol' owr wf_owner_agree [OF agree_on_keys [OF ar]]
    have wo': "wf_owner h' (Node old l' r)"
      by simp
    from sn have sn': "set (node_addrs (Node old l' r)) = insert new (set (node_addrs (Node old l r)))"
      by auto
    from dn sn dist(2) fresh(2) have dn': "distinct (node_addrs (Node old l' r))"
      by auto
    from False st
    have cnd: "\<not> (u \<and> (\<exists>c \<in> set (leaves (Node old l r)). key_of h c = key_of h new))"
      by blast
    from lk' wk' wo' m' dfr dlw r' p' sn' dn' show ?thesis
      unfolding ins_post_def if_not_P [OF cnd] by simp
  qed
qed

lemma lift_right:
  assumes child: "ins_post h h' r' new r r2 (Branches old) EB_RGHT (eb_dotag (Branches old) EB_RGHT) u"
    and lk: "linked h troot up (Node old l r)" and rd: "rd_b h root s = troot"
    and fresh: "new \<notin> set (leaves (Node old l r))" "new \<notin> set (node_addrs (Node old l r))"
    and rt: "root \<noteq> Branches new" "\<forall>a \<in> set (node_addrs (Node old l r)). root \<noteq> Branches a"
    and dist: "distinct (leaves (Node old l r))" "distinct (node_addrs (Node old l r))"
    and wk: "wf_keys h (Node old l r)" and wo: "wf_owner h (Node old l r)"
    and df: "u \<longrightarrow> dup_free h (Node old l r)"
    and pos: "0 \<le> node_bit (nodes h old)"
    and near: "drop_bit (Suc (nat (node_bit (nodes h old)))) (key_of h new) =
               drop_bit (Suc (nat (node_bit (nodes h old)))) (key_of h old)"
    and nb: "bit (key_of h new) (nat (node_bit (nodes h old)))"
  shows "ins_post h h' r' new (Node old l r) (Node old l r2) root s up u"
proof -
  let ?n = "nat (node_bit (nodes h old))"
  let ?P = "\<lambda>c. key_of h c = key_of h old"
  from child have l': "linked h' (rd_b h' (Branches old) EB_RGHT) (eb_dotag (Branches old) EB_RGHT) r2"
    and wl': "wf_keys h' r2" and ol': "wf_owner h' r2"
    and m: "modifies h h' new r (Branches old) EB_RGHT"
    and dl': "u \<longrightarrow> dup_free h' r2"
    unfolding ins_post_def by simp_all
  note ko = ins_post_keys [OF child]
  from fresh dist rt have ne: "new \<noteq> old" and ro: "root \<noteq> Branches old"
    and ol: "old \<notin> set (node_addrs l)" "old \<notin> set (node_addrs r)"
    and rl: "\<forall>a \<in> set (node_addrs r). root \<noteq> Branches a"
    by auto
  from lk have troot: "troot = eb_dotag (Branches old) EB_NODE"
    and up: "node_p (nodes h old) = up"
    and ll: "linked h (branches (nodes h old) EB_LEFT) (eb_dotag (Branches old) EB_LEFT) l"
    by simp_all
  from pos wk have b128: "node_bit (nodes h old) < 128"
    and pl: "\<forall>c \<in> set (leaves l). drop_bit (Suc ?n) (key_of h c) = drop_bit (Suc ?n) (key_of h old) \<and>
               \<not> bit (key_of h c) ?n"
    and pr: "\<forall>c \<in> set (leaves r). drop_bit (Suc ?n) (key_of h c) = drop_bit (Suc ?n) (key_of h old) \<and>
               bit (key_of h c) ?n"
    and wl: "wf_keys h l"
    by (simp_all del: drop_bit_Suc)
  from pos wo have own: "List.find ?P (leaves l @ leaves r) = Some old" and owl: "wf_owner h l"
    by simp_all
  have lt_l: "\<forall>y \<in> set (leaves l). key_of h y < key_of h new"
  proof
    fix y
    assume "y \<in> set (leaves l)"
    with pl near have "drop_bit (Suc ?n) (key_of h y) = drop_bit (Suc ?n) (key_of h new)"
      "\<not> bit (key_of h y) ?n"
      by auto
    with nb show "key_of h y < key_of h new"
      by (intro same_prefix_bit_less [of ?n]) simp_all
  qed
  from m have mk: "\<forall>a. key (nodes h' a) = key (nodes h a)"
    and mb: "\<forall>a. a \<noteq> new \<longrightarrow> node_bit (nodes h' a) = node_bit (nodes h a)"
    and mn: "\<forall>a. a \<noteq> new \<longrightarrow> a \<notin> set (node_addrs r) \<longrightarrow> node_p (nodes h' a) = node_p (nodes h a)"
    and mr: "\<forall>r' s'. r' \<noteq> Branches new \<longrightarrow> (\<forall>a \<in> set (node_addrs r). r' \<noteq> Branches a) \<longrightarrow>
         (r' = Branches old \<longrightarrow> s' \<noteq> EB_RGHT) \<longrightarrow> rd_b h' r' s' = rd_b h r' s'"
    unfolding modifies_def by blast+
  from mr rt(1) rl ro have rd': "rd_b h' root s = rd_b h root s"
    by auto
  from mn ne ol have up': "node_p (nodes h' old) = node_p (nodes h old)"
    by auto
  from mb ne have bit': "node_bit (nodes h' old) = node_bit (nodes h old)"
    by auto
  from mr ne ol have rr: "rd_b h' (Branches old) EB_LEFT = rd_b h (Branches old) EB_LEFT"
    by (auto simp: EB_LEFT_def EB_RGHT_def)
  have al: "agree_on h h' l"
    using m fresh dist by (intro modifies_agree [where t = r and root = "Branches old"]) auto
  with ll have "linked h' (rd_b h (Branches old) EB_LEFT) (eb_dotag (Branches old) EB_LEFT) l"
    by (simp add: linked_agree branches_rd_b)
  with l' rd' rd troot up up' rr have lk': "linked h' (rd_b h' root s) up (Node old l r2)"
    by (simp add: branches_rd_b)
  note sub = ins_post_leaves [OF child]
  have pr': "\<forall>c \<in> set (leaves r2). drop_bit (Suc ?n) (key_of h c) = drop_bit (Suc ?n) (key_of h old) \<and>
               bit (key_of h c) ?n"
    using sub pr near nb by auto
  have wk': "wf_keys h' (Node old l r2)"
    using pos b128 bit' ko pl pr' wl' wl wf_keys_agree [OF agree_on_keys [OF al]]
    by (simp del: drop_bit_Suc)
  have m': "modifies h h' new (Node old l r) root s"
    using m unfolding modifies_def by auto
  have dfr: "u \<longrightarrow> dup_free h' (Node old l r2)"
    using df dl' pos bit' dup_free_agree [OF agree_on_keys [OF al]]
    by (auto simp: dup_free_def)
  from child have "dups_lowest h r \<longrightarrow> dups_lowest h' r2"
    unfolding ins_post_def by simp
  with pos bit' dups_lowest_agree [OF agree_on_keys [OF al]]
  have dlw: "dups_lowest h (Node old l r) \<longrightarrow> dups_lowest h' (Node old l r2)"
    by simp
  from lt_l have nl: "\<not> (\<exists>c \<in> set (leaves l). key_of h c = key_of h new)"
    by (metis less_irrefl)
  then have st: "(\<exists>c \<in> set (leaves (Node old l r)). key_of h c = key_of h new) =
      (\<exists>c \<in> set (leaves r). key_of h c = key_of h new)"
    by auto
  show ?thesis
  proof (cases "u \<and> (\<exists>c \<in> set (leaves r). key_of h c = key_of h new)")
    case True
    with child have same: "r2 = r" and rest: "r' \<in> set (leaves r)" "key_of h r' = key_of h new"
      "\<forall>a. a \<noteq> new \<longrightarrow> nodes h' a = nodes h a" "tree_root h' = tree_root h"
      unfolding ins_post_def by simp_all
    from own same ko pos bit' ol' owl wf_owner_agree [OF agree_on_keys [OF al]]
    have "wf_owner h' (Node old l r2)"
      by simp
    with lk' wk' m' dfr dlw True st same rest show ?thesis
      unfolding ins_post_def by simp
  next
    case False
    with child have r': "r' = new" and p: "placed h new (leaves r) (leaves r2)"
      and sn: "set (node_addrs r2) = insert new (set (node_addrs r))"
      and dn: "distinct (node_addrs r) \<longrightarrow> new \<notin> set (node_addrs r) \<longrightarrow> distinct (node_addrs r2)"
      unfolding ins_post_def by simp_all
    from p obtain ys zs where ls: "leaves r = ys @ zs" "leaves r2 = ys @ new # zs"
      and ys: "\<forall>y \<in> set ys. key_of h y \<le> key_of h new"
      and zs: "\<forall>z \<in> set zs. key_of h new < key_of h z"
      unfolding placed_def by blast
    from ys lt_l have yl: "\<forall>y \<in> set (leaves l @ ys). key_of h y \<le> key_of h new"
      by (auto intro: less_imp_le)
    with ls zs have p': "placed h new (leaves (Node old l r)) (leaves (Node old l r2))"
      unfolding placed_def by (intro exI [of _ "leaves l @ ys"] exI [of _ zs]) simp
    from own ls have f0: "List.find ?P ((leaves l @ ys) @ zs) = Some old"
      by simp
    have "List.find ?P (leaves l @ ys) \<noteq> None" if "?P new"
    proof -
      from f0 have "old \<in> set ((leaves l @ ys) @ zs)"
        by (metis find_Some_iff nth_mem)
      moreover from that zs have "old \<notin> set zs"
        by (metis less_irrefl)
      ultimately have "old \<in> set (leaves l @ ys)"
        by auto
      then show ?thesis
        by (auto simp: find_None_iff)
    qed
    with f0 have "List.find ?P ((leaves l @ ys) @ new # zs) = Some old"
      by (rule find_insert)
    with ls pos bit' ko ol' owl wf_owner_agree [OF agree_on_keys [OF al]]
    have wo': "wf_owner h' (Node old l r2)"
      by simp
    from sn have sn': "set (node_addrs (Node old l r2)) = insert new (set (node_addrs (Node old l r)))"
      by auto
    from dn sn dist(2) fresh(2) have dn': "distinct (node_addrs (Node old l r2))"
      by auto
    from False st
    have cnd: "\<not> (u \<and> (\<exists>c \<in> set (leaves (Node old l r)). key_of h c = key_of h new))"
      by blast
    from lk' wk' wo' m' dfr dlw r' p' sn' dn' show ?thesis
      unfolding ins_post_def if_not_P [OF cnd] by simp
  qed
qed

section \<open>The two-halves branch selection below bit 64\<close>

text \<open>
  For bit positions below 64 the two-halves code reads the bit of the key that the
  single shift reads. In a tree whose keys are all below \<open>2 ^ 64\<close> no node has a higher bit.
\<close>

lemma low_key_iff: "((k :: u128) < 2 ^ 64) = (drop_bit 64 k = 0)"
proof -
  have "unat (2 ^ 64 :: u128) = 2 ^ 64"
    by simp
  then have "(k < 2 ^ 64) = (unat k < 2 ^ 64)"
    by (simp only: word_less_nat_alt)
  also have "\<dots> = (unat k div 2 ^ 64 = 0)"
    by (simp add: div_eq_0_iff)
  also have "\<dots> = (unat (drop_bit 64 k) = 0)"
    by (simp only: unat_drop)
  also have "\<dots> = (drop_bit 64 k = 0)"
    by (simp only: unat_eq_0)
  finally show ?thesis .
qed

lemma side_halves_bit:
  assumes "0 \<le> b" "b < 64"
  shows "side_halves k b = (if bit k (nat b) then 1 else 0)"
proof (cases "32 \<le> b")
  case False
  with assms have n: "nat b < 32"
    by simp
  have "drop_bit (nat b) (ucast k :: u32) AND 1 = (if bit (ucast k :: u32) (nat b) then 1 else 0)"
    by (simp add: and_one_eq mod_2_eq_odd even_drop_bit_iff_not_bit)
  moreover from n have "bit (ucast k :: u32) (nat b) = bit k (nat b)"
    by (simp add: bit_ucast_iff)
  ultimately show ?thesis
    using False by (simp add: side_halves_def EB_NODE_BRANCH_MASK_def Let_def)
next
  case True
  have "b AND 31 = take_bit 5 b"
    by (simp add: take_bit_eq_mask mask_eq_exp_minus_1)
  also have "\<dots> = b mod 32"
    by (simp add: take_bit_eq_mod)
  also from True assms have "\<dots> = b - 32"
    by presburger
  finally have "b AND 31 = b - 32" .
  with True assms have n: "nat (b AND 31) < 32" "nat (b AND 31) + 32 = nat b"
    by simp_all
  let ?m = "nat (b AND 31)"
  have "drop_bit ?m (ucast (drop_bit 32 k) :: u32) AND 1 =
      (if bit (ucast (drop_bit 32 k) :: u32) ?m then 1 else 0)"
    by (simp add: and_one_eq mod_2_eq_odd even_drop_bit_iff_not_bit)
  moreover from n have "bit (ucast (drop_bit 32 k) :: u32) ?m = bit k (nat b)"
    by (simp add: bit_ucast_iff bit_drop_bit_eq add.commute)
  ultimately show ?thesis
    using True by (simp add: side_halves_def EB_NODE_BRANCH_MASK_def Let_def)
qed

lemma top_bit_below:
  assumes wk: "wf_keys h c" and tb: "top_bit h c = Some b"
    and pre: "\<forall>x \<in> set (leaves c). drop_bit n (key_of h x) = drop_bit n k"
  shows "b < int n"
proof (cases c)
  case (Leaf a)
  with tb show ?thesis
    by simp
next
  case (Node a l r)
  with tb have b: "b = node_bit (nodes h a)"
    by simp
  show ?thesis
  proof (cases "b < 0")
    case True
    then show ?thesis
      by simp
  next
    case False
    obtain x where x: "x \<in> set (leaves l)"
      using leaves_nonempty [of l] by (cases "leaves l") auto
    obtain y where y: "y \<in> set (leaves r)"
      using leaves_nonempty [of r] by (cases "leaves r") auto
    from wk Node b False x y
    have d: "\<not> bit (key_of h x) (nat b)" "bit (key_of h y) (nat b)"
      by (simp_all del: drop_bit_Suc)
    from pre Node x y have "drop_bit n (key_of h x) = drop_bit n (key_of h y)"
      by simp
    have "\<not> n \<le> nat b"
    proof
      assume "n \<le> nat b"
      from drop_bit_eq_bit [OF \<open>drop_bit n (key_of h x) = drop_bit n (key_of h y)\<close> this] d
      show False
        by simp
    qed
    with False show ?thesis
      by simp
  qed
qed

section \<open>The descent loop of insertion\<close>

text \<open>
  The loop returns, and what it returns satisfies \<open>ins_post\<close>, when the branch side is
  computed by the single shift or all keys are below \<open>2 ^ 64\<close>.
\<close>

lemma above_result:
  assumes "key_of h new \<noteq> key_of h old"
  shows "\<exists>h' r'. insert_above_node (<) h new root side old = Inr (h', r')"
proof -
  from assms have "key_of h new < key_of h old \<or> key_of h old < key_of h new"
    by auto
  then show ?thesis
    by (auto simp: insert_above_node_def Let_def intro: prod.exhaust)
qed

lemma above_dup_result:
  assumes "key_of h new = key_of h old" "node_p (nodes h old) = eb_dotag root s"
  shows "\<exists>h' r'. insert_above_node (<) h new root side old = Inr (h', r')"
  using assms by (simp add: insert_above_node_def eb_insert_dup_def Let_def eb_dotag_def)

lemma far_sep:
  fixes n o' c :: u128
  assumes far: "\<not> drop_bit b (n XOR o') < 2"
    and pre: "drop_bit (Suc b) c = drop_bit (Suc b) o'"
  shows "drop_bit (nat (fls128 (n XOR o') - EB_NODE_BITS)) c =
         drop_bit (nat (fls128 (n XOR o') - EB_NODE_BITS)) o'"
proof -
  let ?m = "nat (fls128 (n XOR o') - EB_NODE_BITS)"
  from far have ne: "drop_bit (Suc b) n \<noteq> drop_bit (Suc b) o'"
    by (simp only: xor_shift_small_iff not_False_eq_True)
  then have "n \<noteq> o'"
    by auto
  from msb_diff(4) [OF this] have top: "drop_bit (Suc ?m) n = drop_bit (Suc ?m) o'" .
  have "Suc b \<le> ?m"
  proof (rule ccontr)
    assume "\<not> Suc b \<le> ?m"
    then have "Suc ?m \<le> Suc b"
      by simp
    from drop_bit_eq_mono [OF top this] ne show False
      by simp
  qed
  from drop_bit_eq_mono [OF pre this] show ?thesis .
qed

lemma loop_at_leaf:
  "insert_loop lt bpl h new root_right newkey root side (eb_dotag (Branches old) EB_LEAF) =
     Some (Inr (insert_at_leaf lt h new root_right root side old))"
  by (subst insert_loop.simps) (simp add: tag_defs)

lemma loop_at_node:
  assumes "128 \<le> bpl \<or> node_bit (nodes h old) < 64"
  shows "insert_loop lt bpl h new root_right newkey root side (eb_dotag (Branches old) EB_NODE) =
     (if node_bit (nodes h old) < 0 then Some (insert_above_node lt h new root side old)
      else if \<not> valid_shift (node_bit (nodes h old)) then Some (Inl Undefined_Shift)
      else if \<not> drop_bit (nat (node_bit (nodes h old))) (key_of h new XOR key_of h old) < 2
      then Some (insert_above_node lt h new root side old)
      else insert_loop lt bpl h new root_right newkey (Branches old)
             (if bit newkey (nat (node_bit (nodes h old))) then 1 else 0)
             (rd_b h (Branches old) (bit newkey (nat (node_bit (nodes h old))))))"
proof (cases "node_bit (nodes h old) < 0")
  case True
  then show ?thesis
    by (subst insert_loop.simps) (simp add: tag_defs Let_def)
next
  case False
  with assms have "branch_side bpl newkey (node_bit (nodes h old)) =
      (if bit newkey (nat (node_bit (nodes h old))) then 1 else 0)"
    by (auto simp: branch_side_def side_single_bit side_halves_bit)
  then show ?thesis
    by (subst insert_loop.simps) (simp add: tag_defs Let_def shr_def not_less)
qed

lemma insert_loop_inv:
  assumes "linked h troot up t" "rd_b h root s = troot" "up = eb_dotag root s"
    and "new \<notin> set (leaves t)" "new \<notin> set (node_addrs t)"
    and "root \<noteq> Branches new" "\<forall>a \<in> set (node_addrs t). root \<noteq> Branches a"
    and "distinct (leaves t)" "distinct (node_addrs t)"
    and "wf_keys h t" "wf_owner h t"
    and "eb_gettag root_right \<longrightarrow> dup_free h t"
    and "side = (if s then 1 else 0)"
    and "128 \<le> bpl \<or>
      (drop_bit 64 (key_of h new) = 0 \<and> (\<forall>x \<in> set (leaves t). drop_bit 64 (key_of h x) = 0))"
  shows "\<exists>h' r' t'. insert_loop (<) bpl h new root_right (key_of h new) root side troot =
           Some (Inr (h', r')) \<and>
           ins_post h h' r' new t t' root s up (eb_gettag root_right)"
  using assms
proof (induction t arbitrary: troot up root s side)
  case (Leaf old)
  let ?u = "eb_gettag root_right"
  from Leaf.prems have troot: "troot = eb_dotag (Branches old) EB_LEAF"
    and up: "leaf_p (nodes h old) = up" and ne: "new \<noteq> old"
    by simp_all
  obtain h' r' where res: "insert_at_leaf (<) h new root_right root side old = (h', r')"
    by (cases "insert_at_leaf (<) h new root_right root side old")
  have "\<exists>t'. ins_post h h' r' new (Leaf old) t' root s up ?u"
  proof -
    consider "key_of h new < key_of h old" | "key_of h old < key_of h new"
      | "key_of h new = key_of h old" "\<not> ?u" | "key_of h new = key_of h old" "?u"
      by fastforce
    then show ?thesis
    proof cases
      case 1
      from at_leaf_less [OF up ne Leaf.prems(6) Leaf.prems(13) 1 res] show ?thesis ..
    next
      case 2
      from at_leaf_greater [OF up ne Leaf.prems(6) Leaf.prems(13) 2 res] show ?thesis ..
    next
      case 3
      from at_leaf_equal_dup [OF up ne Leaf.prems(6) Leaf.prems(13) 3 res] show ?thesis ..
    next
      case 4
      from Leaf.prems(2) troot have "rd_b h root s = eb_dotag (Branches old) EB_LEAF"
        by simp
      from at_leaf_equal_unique [OF up this ne 4 res] show ?thesis ..
    qed
  qed
  with res troot show ?case
    by (simp add: loop_at_leaf)
next
  case (Node old l r)
  let ?u = "eb_gettag root_right"
  let ?t = "Node old l r"
  let ?b = "node_bit (nodes h old)"
  let ?k = "key_of h new"
  note lk = Node.prems(1) and rd = Node.prems(2) and upr = Node.prems(3)
    and fresh = Node.prems(4,5) and rt = Node.prems(6,7) and dist = Node.prems(8,9)
    and wk = Node.prems(10) and wo = Node.prems(11) and df = Node.prems(12)
    and side = Node.prems(13) and low = Node.prems(14)
  from lk have troot: "troot = eb_dotag (Branches old) EB_NODE"
    and up: "node_p (nodes h old) = up"
    and ll: "linked h (rd_b h (Branches old) EB_LEFT) (eb_dotag (Branches old) EB_LEFT) l"
    and lr: "linked h (rd_b h (Branches old) EB_RGHT) (eb_dotag (Branches old) EB_RGHT) r"
    by (simp_all add: branches_rd_b)
  have "128 \<le> bpl \<or> ?b < 64"
  proof (cases "128 \<le> bpl")
    case False
    with low have "\<forall>x \<in> set (leaves ?t). drop_bit 64 (key_of h x) = drop_bit 64 0"
      by simp
    from top_bit_below [OF wk _ this, of ?b] show ?thesis
      by simp
  qed simp
  note step = loop_at_node [OF this, where lt = "(<)" and new = new and root_right = root_right
      and newkey = ?k and root = root and side = side]
  have above: "\<exists>h' r' t'. insert_above_node (<) h new root side old = Inr (h', r') \<and>
      ins_post h h' r' new ?t t' root s up ?u"
    if ne: "?k \<noteq> key_of h old"
      and sep: "\<forall>c \<in> set (leaves ?t).
        drop_bit (nat (fls128 (?k XOR key_of h old) - EB_NODE_BITS)) (key_of h c) =
        drop_bit (nat (fls128 (?k XOR key_of h old) - EB_NODE_BITS)) (key_of h old)"
  proof -
    from above_result [OF ne] obtain h' r'
      where res: "insert_above_node (<) h new root side old = Inr (h', r')"
      by blast
    from ne consider "?k < key_of h old" | "key_of h old < ?k"
      by fastforce
    then have "\<exists>t'. ins_post h h' r' new ?t t' root s up ?u"
    proof cases
      case 1
      from above_less [OF lk fresh rt dist(2) side wk wo df 1 sep res] show ?thesis ..
    next
      case 2
      from above_greater [OF lk fresh rt dist(2) side wk wo df 2 sep res] show ?thesis ..
    qed
    with res show ?thesis
      by blast
  qed
  show ?case
  proof (cases "?b < 0")
    case True
    with wk have same: "\<forall>c \<in> set (leaves ?t). key_of h c = key_of h old"
      by simp
    show ?thesis
    proof (cases "?k = key_of h old")
      case False
      from above [OF False] same True troot step show ?thesis
        by simp
    next
      case eq: True
      from df True have nu: "\<not> ?u"
        by (auto simp: dup_free_def)
      from up upr have "node_p (nodes h old) = eb_dotag root s"
        by simp
      from above_dup_result [OF eq this] obtain h' r'
        where res: "insert_above_node (<) h new root side old = Inr (h', r')"
        by blast
      from above_dup [OF lk upr fresh rt dist(2) wk wo True eq res] nu
      have "ins_post h h' r' new ?t (Node new ?t (Leaf new)) root s up ?u"
        by simp
      with res True troot step show ?thesis
        by auto
    qed
  next
    case pos: False
    then have p0: "0 \<le> ?b"
      by simp
    with wk have b128: "?b < 128"
      and pl: "\<forall>c \<in> set (leaves l).
         drop_bit (Suc (nat ?b)) (key_of h c) = drop_bit (Suc (nat ?b)) (key_of h old)"
      and pr: "\<forall>c \<in> set (leaves r).
         drop_bit (Suc (nat ?b)) (key_of h c) = drop_bit (Suc (nat ?b)) (key_of h old)"
      and wl: "wf_keys h l" and wr: "wf_keys h r"
      by (simp_all del: drop_bit_Suc)
    from p0 wo have ol: "wf_owner h l" and or: "wf_owner h r"
      by simp_all
    from df have dl: "?u \<longrightarrow> dup_free h l" and dr: "?u \<longrightarrow> dup_free h r"
      by (auto simp: dup_free_def)
    from p0 b128 have vs: "valid_shift ?b"
      by (simp add: valid_shift_def)
    show ?thesis
    proof (cases "drop_bit (nat ?b) (?k XOR key_of h old) < 2")
      case far: False
      then have "drop_bit (Suc (nat ?b)) ?k \<noteq> drop_bit (Suc (nat ?b)) (key_of h old)"
        by (simp only: xor_shift_small_iff not_False_eq_True)
      then have ne: "?k \<noteq> key_of h old"
        by auto
      have "\<forall>c \<in> set (leaves ?t).
        drop_bit (nat (fls128 (?k XOR key_of h old) - EB_NODE_BITS)) (key_of h c) =
        drop_bit (nat (fls128 (?k XOR key_of h old) - EB_NODE_BITS)) (key_of h old)"
      proof
        fix c
        assume "c \<in> set (leaves ?t)"
        with pl pr have "drop_bit (Suc (nat ?b)) (key_of h c) = drop_bit (Suc (nat ?b)) (key_of h old)"
          by auto
        from far_sep [OF far this] show
          "drop_bit (nat (fls128 (?k XOR key_of h old) - EB_NODE_BITS)) (key_of h c) =
           drop_bit (nat (fls128 (?k XOR key_of h old) - EB_NODE_BITS)) (key_of h old)" .
      qed
      from above [OF ne this] pos vs far troot step show ?thesis
        by simp
    next
      case near: True
      then have pre: "drop_bit (Suc (nat ?b)) ?k = drop_bit (Suc (nat ?b)) (key_of h old)"
        by (simp only: xor_shift_small_iff)
      from fresh dist have on: "Branches old \<noteq> Branches new"
        and onl: "\<forall>a \<in> set (node_addrs l). Branches old \<noteq> Branches a"
        and onr: "\<forall>a \<in> set (node_addrs r). Branches old \<noteq> Branches a"
        and fl: "new \<notin> set (leaves l)" "new \<notin> set (node_addrs l)"
        and fr: "new \<notin> set (leaves r)" "new \<notin> set (node_addrs r)"
        and dsl: "distinct (leaves l)" "distinct (node_addrs l)"
        and dsr: "distinct (leaves r)" "distinct (node_addrs r)"
        by auto
      from low have lowl: "128 \<le> bpl \<or>
          (drop_bit 64 ?k = 0 \<and> (\<forall>x \<in> set (leaves l). drop_bit 64 (key_of h x) = 0))"
        and lowr: "128 \<le> bpl \<or>
          (drop_bit 64 ?k = 0 \<and> (\<forall>x \<in> set (leaves r). drop_bit 64 (key_of h x) = 0))"
        by auto
      show ?thesis
      proof (cases "bit ?k (nat ?b)")
        case True
        have sd: "(1 :: u32) = (if EB_RGHT then 1 else 0)"
          by (simp add: EB_RGHT_def)
        from Node.IH(2) [OF lr refl refl fr on onr dsr wr or dr sd lowr]
        obtain h' r' t' where
          run: "insert_loop (<) bpl h new root_right ?k (Branches old) 1
                  (rd_b h (Branches old) EB_RGHT) = Some (Inr (h', r'))"
          and post: "ins_post h h' r' new r t' (Branches old) EB_RGHT
                  (eb_dotag (Branches old) EB_RGHT) ?u"
          by blast
        from lift_right [OF post lk rd fresh rt dist wk wo df p0 pre True]
        have "ins_post h h' r' new ?t (Node old l t') root s up ?u" .
        moreover from run pos vs near True troot step
        have "insert_loop (<) bpl h new root_right ?k root side troot = Some (Inr (h', r'))"
          by (simp add: EB_RGHT_def)
        ultimately show ?thesis
          by blast
      next
        case False
        have sd: "(0 :: u32) = (if EB_LEFT then 1 else 0)"
          by (simp add: EB_LEFT_def)
        from Node.IH(1) [OF ll refl refl fl on onl dsl wl ol dl sd lowl]
        obtain h' r' t' where
          run: "insert_loop (<) bpl h new root_right ?k (Branches old) 0
                  (rd_b h (Branches old) EB_LEFT) = Some (Inr (h', r'))"
          and post: "ins_post h h' r' new l t' (Branches old) EB_LEFT
                  (eb_dotag (Branches old) EB_LEFT) ?u"
          by blast
        from lift_left [OF post lk rd fresh rt dist wk wo df p0 pre False]
        have "ins_post h h' r' new ?t (Node old t' r) root s up ?u" .
        moreover from run pos vs near False troot step
        have "insert_loop (<) bpl h new root_right ?k root side troot = Some (Inr (h', r'))"
          by (simp add: EB_LEFT_def)
        ultimately show ?thesis
          by blast
      qed
    qed
  qed
qed

section \<open>Insertion keeps trees well-formed\<close>

text \<open>
  \<^verbatim>\<open>eb128_insert\<close> on the empty root and on a tree; then every sequence of insertions of
  different records into the empty tree.
\<close>

lemma placed_distinct:
  assumes "placed h new ls ls'" "distinct ls" "new \<notin> set ls"
  shows "distinct ls'" "set ls' = insert new (set ls)"
  using assms unfolding placed_def by auto

lemma insert_nonempty:
  assumes inv: "tree_inv h t" and fresh: "new \<notin> set (leaves t)"
    and low: "128 \<le> bpl \<or> (\<forall>x \<in> insert new (set (leaves t)). key_of h x < 2 ^ 64)"
  shows "\<exists>h' r t'. eb128_insert bpl h new = Some (Inr (h', r)) \<and> tree_inv h' t' \<and>
           key_of h' = key_of h \<and> tree_root h' EB_RGHT = tree_root h EB_RGHT \<and>
           (if eb_gettag (tree_root h EB_RGHT) \<and> (\<exists>c \<in> set (leaves t). key_of h c = key_of h new)
            then t' = t \<and> r \<in> set (leaves t) \<and> key_of h r = key_of h new \<and>
                 (\<forall>a. a \<noteq> new \<longrightarrow> nodes h' a = nodes h a) \<and> tree_root h' = tree_root h
            else r = new \<and> placed h new (leaves t) (leaves t'))"
proof -
  let ?u = "eb_gettag (tree_root h EB_RGHT)"
  let ?up = "eb_dotag Root EB_LEFT"
  from inv have wf: "well_formed h t" and wo: "wf_owner h t" and dw: "dups_lowest h t"
    and dl: "distinct (leaves t)" and dn: "distinct (node_addrs t)"
    and sub: "set (node_addrs t) \<subseteq> set (leaves t)" and df: "?u \<longrightarrow> dup_free h t"
    unfolding tree_inv_def by simp_all
  from wf have lk: "linked h (tree_root h EB_LEFT) ?up t"
    and nr: "eb_clrtag (tree_root h EB_RGHT) = None" and wk: "wf_keys h t"
    unfolding well_formed_def by simp_all
  from fresh sub have fn: "new \<notin> set (node_addrs t)"
    by auto
  have rd: "rd_b h Root EB_LEFT = tree_root h EB_LEFT"
    by (simp add: rd_b_def)
  have r1: "Root \<noteq> Branches new" and r2: "\<forall>a \<in> set (node_addrs t). Root \<noteq> Branches a"
    by simp_all
  have sd: "(0 :: u32) = (if EB_LEFT then 1 else 0)"
    by (simp add: EB_LEFT_def)
  from low have low': "128 \<le> bpl \<or>
      (drop_bit 64 (key_of h new) = 0 \<and> (\<forall>x \<in> set (leaves t). drop_bit 64 (key_of h x) = 0))"
    unfolding low_key_iff by blast
  from insert_loop_inv [OF lk rd refl fresh fn r1 r2 dl dn wk wo df sd low']
  obtain h' r t' where
    run: "insert_loop (<) bpl h new (tree_root h EB_RGHT) (key_of h new) Root 0
            (tree_root h EB_LEFT) = Some (Inr (h', r))"
    and post: "ins_post h h' r new t t' Root EB_LEFT ?up ?u"
    by blast
  from well_formed_not_empty [OF wf] run
  have res: "eb128_insert bpl h new = Some (Inr (h', r))"
    by (simp add: eb128_insert_def)
  from post have lk': "linked h' (rd_b h' Root EB_LEFT) ?up t'"
    and wk': "wf_keys h' t'" and wo': "wf_owner h' t'"
    and m: "modifies h h' new t Root EB_LEFT" and df': "?u \<longrightarrow> dup_free h' t'"
    and dw': "dups_lowest h' t'"
    using dw unfolding ins_post_def by simp_all
  note ko = ins_post_keys [OF post]
  from m have "\<forall>r' s'. r' \<noteq> Branches new \<longrightarrow> (\<forall>a \<in> set (node_addrs t). r' \<noteq> Branches a) \<longrightarrow>
         (r' = Root \<longrightarrow> s' \<noteq> EB_LEFT) \<longrightarrow> rd_b h' r' s' = rd_b h r' s'"
    unfolding modifies_def by blast
  then have "rd_b h' Root EB_RGHT = rd_b h Root EB_RGHT"
    by (simp add: EB_LEFT_def EB_RGHT_def)
  then have rr: "tree_root h' EB_RGHT = tree_root h EB_RGHT"
    by (simp add: rd_b_def)
  from lk' wk' nr rr have wf': "well_formed h' t'"
    by (simp add: well_formed_def rd_b_def)
  show ?thesis
  proof (cases "?u \<and> (\<exists>c \<in> set (leaves t). key_of h c = key_of h new)")
    case True
    with post have same: "t' = t" and rest: "r \<in> set (leaves t)" "key_of h r = key_of h new"
      "\<forall>a. a \<noteq> new \<longrightarrow> nodes h' a = nodes h a" "tree_root h' = tree_root h"
      unfolding ins_post_def by simp_all
    from wf' wo' dw' df' rr same dl dn sub have "tree_inv h' t'"
      by (simp add: tree_inv_def)
    with res ko rr True same rest show ?thesis
      by simp
  next
    case False
    with post have r: "r = new" and p: "placed h new (leaves t) (leaves t')"
      and sn: "set (node_addrs t') = insert new (set (node_addrs t))"
      and dn': "distinct (node_addrs t')"
      using dn fn unfolding ins_post_def by simp_all
    from placed_distinct [OF p dl fresh] sn sub
    have "distinct (leaves t')" "set (node_addrs t') \<subseteq> set (leaves t')"
      by auto
    with wf' wo' dw' df' rr dn' have "tree_inv h' t'"
      by (simp add: tree_inv_def)
    with res ko rr r p show ?thesis
      unfolding if_not_P [OF False] by blast
  qed
qed

lemma insert_first:
  assumes "tree_root h EB_LEFT = NULL" "eb_clrtag (tree_root h EB_RGHT) = None"
  shows "\<exists>h'. eb128_insert bpl h new = Some (Inr (h', new)) \<and> tree_inv h' (Leaf new) \<and>
           key_of h' = key_of h \<and> tree_root h' EB_RGHT = tree_root h EB_RGHT"
  using assms
  by (auto simp: eb128_insert_def insert_empty_def Let_def tree_inv_def well_formed_def
      dup_free_def rd_b_def wr_b_def set_leaf_p_def set_node_p_def key_of_def tag_defs fun_eq_iff)

lemma holds_insert:
  assumes h: "holds h ls" and fresh: "new \<notin> set ls"
    and low: "128 \<le> bpl \<or> (\<forall>x \<in> insert new (set ls). key_of h x < 2 ^ 64)"
  shows "\<exists>h' r ls'. eb128_insert bpl h new = Some (Inr (h', r)) \<and> holds h' ls' \<and>
           key_of h' = key_of h \<and> tree_root h' EB_RGHT = tree_root h EB_RGHT \<and>
           ls' \<noteq> [] \<and> set ls' \<subseteq> insert new (set ls) \<and>
           (\<not> eb_gettag (tree_root h EB_RGHT) \<longrightarrow> set ls' = insert new (set ls))"
proof (cases "ls = []")
  case True
  with h have "tree_root h EB_LEFT = NULL" "eb_clrtag (tree_root h EB_RGHT) = None"
    by (simp_all add: holds_def)
  from insert_first [OF this, of bpl new] obtain h' where
    "eb128_insert bpl h new = Some (Inr (h', new))" "tree_inv h' (Leaf new)"
    "key_of h' = key_of h" "tree_root h' EB_RGHT = tree_root h EB_RGHT"
    by blast
  moreover from this h have "holds h' [new]"
    by (auto simp: holds_def)
  ultimately show ?thesis
    using True by (intro exI [of _ h'] exI [of _ new] exI [of _ "[new]"]) simp
next
  case False
  with h obtain t where nr: "eb_clrtag (tree_root h EB_RGHT) = None"
    and inv: "tree_inv h t" and ls: "leaves t = ls"
    by (auto simp: holds_def)
  from inv have dl: "distinct (leaves t)"
    by (simp add: tree_inv_def)
  from fresh ls have fr: "new \<notin> set (leaves t)"
    by simp
  from low ls have "128 \<le> bpl \<or> (\<forall>x \<in> insert new (set (leaves t)). key_of h x < 2 ^ 64)"
    by simp
  from insert_nonempty [OF inv fr this] obtain h' r t' where
    res: "eb128_insert bpl h new = Some (Inr (h', r))" and inv': "tree_inv h' t'"
    and ko: "key_of h' = key_of h" and rr: "tree_root h' EB_RGHT = tree_root h EB_RGHT"
    and alt: "t' = t \<or> placed h new (leaves t) (leaves t')"
    and nu: "\<not> eb_gettag (tree_root h EB_RGHT) \<longrightarrow> placed h new (leaves t) (leaves t')"
    by (auto split: if_splits)
  from alt ls have sub: "set (leaves t') \<subseteq> insert new (set ls)"
    by (auto simp: placed_def)
  from nu ls placed_distinct(2) [OF _ dl fr]
  have eq: "\<not> eb_gettag (tree_root h EB_RGHT) \<longrightarrow> set (leaves t') = insert new (set ls)"
    by auto
  from inv' nr rr have "holds h' (leaves t')"
    by (auto simp: holds_def)
  with res ko rr sub eq show ?thesis
    by (intro exI [of _ h'] exI [of _ r] exI [of _ "leaves t'"]) simp
qed

lemma insert_all_holds:
  "holds h ls \<Longrightarrow> distinct as \<Longrightarrow> set as \<inter> set ls = {} \<Longrightarrow>
    128 \<le> bpl \<or> (\<forall>x \<in> set as \<union> set ls. key_of h x < 2 ^ 64) \<Longrightarrow>
    \<exists>h' ls'. insert_all (eb128_insert bpl) h as = Some h' \<and> holds h' ls' \<and>
      key_of h' = key_of h \<and> tree_root h' EB_RGHT = tree_root h EB_RGHT \<and>
      (ls' = [] \<longrightarrow> as = [] \<and> ls = []) \<and> set ls' \<subseteq> set as \<union> set ls \<and>
      (\<not> eb_gettag (tree_root h EB_RGHT) \<longrightarrow> set ls' = set as \<union> set ls)"
proof (induction as arbitrary: h ls)
  case Nil
  then show ?case
    by auto
next
  case (Cons a as)
  from Cons.prems have "a \<notin> set ls"
    by auto
  moreover from Cons.prems(4)
  have "128 \<le> bpl \<or> (\<forall>x \<in> insert a (set ls). key_of h x < 2 ^ 64)"
    by auto
  ultimately obtain h1 r ls1 where
    res: "eb128_insert bpl h a = Some (Inr (h1, r))" and h1: "holds h1 ls1"
    and k1: "key_of h1 = key_of h" and r1: "tree_root h1 EB_RGHT = tree_root h EB_RGHT"
    and n1: "ls1 \<noteq> []" and s1: "set ls1 \<subseteq> insert a (set ls)"
    and e1: "\<not> eb_gettag (tree_root h EB_RGHT) \<longrightarrow> set ls1 = insert a (set ls)"
    using holds_insert [OF Cons.prems(1), of a bpl] by blast
  from Cons.prems s1 have "distinct as" "set as \<inter> set ls1 = {}"
    by auto
  moreover from Cons.prems(4) s1 k1
  have "128 \<le> bpl \<or> (\<forall>x \<in> set as \<union> set ls1. key_of h1 x < 2 ^ 64)"
    by auto
  ultimately obtain h' ls' where
    "insert_all (eb128_insert bpl) h1 as = Some h'" "holds h' ls'"
    "key_of h' = key_of h1" "tree_root h' EB_RGHT = tree_root h1 EB_RGHT"
    "ls' = [] \<longrightarrow> as = [] \<and> ls1 = []" "set ls' \<subseteq> set as \<union> set ls1"
    "\<not> eb_gettag (tree_root h1 EB_RGHT) \<longrightarrow> set ls' = set as \<union> set ls1"
    using Cons.IH [OF h1] by blast
  with res k1 r1 n1 s1 e1 show ?case
    by (intro exI [of _ h'] exI [of _ ls']) auto
qed

lemma fresh_heap_holds: "holds (fresh_heap unique ks) []"
  by (simp add: holds_def fresh_heap_def empty_root_def tag_defs)

lemma built_tree_inv:
  assumes "distinct as" "as \<noteq> []" "128 \<le> bpl \<or> (\<forall>a \<in> set as. ks a < 2 ^ 64)"
  shows "\<exists>h t. insert_all (eb128_insert bpl) (fresh_heap unique ks) as = Some h \<and>
           tree_inv h t \<and> key_of h = ks \<and> set (leaves t) \<subseteq> set as \<and>
           (\<not> unique \<longrightarrow> set (leaves t) = set as)"
proof -
  have k0: "key_of (fresh_heap unique ks) = ks"
    by (simp add: key_of_def fresh_heap_def fresh_node_def fun_eq_iff)
  have u0: "eb_gettag (tree_root (fresh_heap unique ks) EB_RGHT) = unique"
    by (simp add: fresh_heap_def empty_root_def tag_defs)
  from assms(3) k0
  have "128 \<le> bpl \<or> (\<forall>x \<in> set as \<union> set []. key_of (fresh_heap unique ks) x < 2 ^ 64)"
    by simp
  from insert_all_holds [OF fresh_heap_holds assms(1) _ this] assms(2)
  obtain h ls where run: "insert_all (eb128_insert bpl) (fresh_heap unique ks) as = Some h"
    and h: "holds h ls" and k: "key_of h = key_of (fresh_heap unique ks)"
    and ne: "ls \<noteq> []" and sub: "set ls \<subseteq> set as"
    and eq: "\<not> eb_gettag (tree_root (fresh_heap unique ks) EB_RGHT) \<longrightarrow> set ls = set as"
    by auto
  from h ne obtain t where "tree_inv h t" "leaves t = ls"
    by (auto simp: holds_def)
  with run k k0 sub eq u0 show ?thesis
    by (intro exI [of _ h] exI [of _ t]) simp
qed

section \<open>The order of bits along a path\<close>

text \<open>
  In a well-formed tree whose sentinels lie below the ordinary nodes the bits decrease
  from every ordinary node to its children.
\<close>

lemma drop_bit_Suc_bit:
  fixes x y :: u128
  assumes "drop_bit (Suc n) x = drop_bit (Suc n) y" "bit x n = bit y n"
  shows "drop_bit n x = drop_bit n y"
proof (rule bit_eqI)
  fix i
  show "bit (drop_bit n x) i = bit (drop_bit n y) i"
  proof (cases i)
    case 0
    with assms(2) show ?thesis
      by (simp add: bit_drop_bit_eq)
  next
    case (Suc j)
    from assms(1) have "bit (drop_bit (Suc n) x) j = bit (drop_bit (Suc n) y) j"
      by simp
    with Suc show ?thesis
      by (simp add: bit_drop_bit_eq del: drop_bit_Suc)
  qed
qed

lemma only_dups_top: "only_dups h t \<Longrightarrow> top_bit h t = Some b \<Longrightarrow> b < 0"
  by (cases t) (auto simp: only_dups_def)

lemma only_dups_bit_order: "only_dups h t \<Longrightarrow> bit_order h t"
proof (induction t)
  case (Leaf a)
  then show ?case
    by simp
next
  case (Node a l r)
  from Node.prems have a: "node_bit (nodes h a) < 0" and l: "only_dups h l" and r: "only_dups h r"
    by (simp_all add: only_dups_def)
  with Node.IH only_dups_top [OF l] only_dups_top [OF r] show ?case
    by simp
qed

lemma child_bit_below:
  assumes wc: "wf_keys h c" and tb: "top_bit h c = Some b"
    and pre: "\<forall>x \<in> set (leaves c). drop_bit (Suc n) (key_of h x) = drop_bit (Suc n) k \<and>
                bit (key_of h x) n = v"
  shows "b < int n"
proof -
  obtain x0 where "x0 \<in> set (leaves c)"
    using leaves_nonempty [of c] by (cases "leaves c") auto
  have "\<forall>x \<in> set (leaves c). drop_bit n (key_of h x) = drop_bit n (key_of h x0)"
  proof
    fix x
    assume "x \<in> set (leaves c)"
    with pre \<open>x0 \<in> set (leaves c)\<close>
    have "drop_bit (Suc n) (key_of h x) = drop_bit (Suc n) (key_of h x0)"
      "bit (key_of h x) n = bit (key_of h x0) n"
      by simp_all
    then show "drop_bit n (key_of h x) = drop_bit n (key_of h x0)"
      by (rule drop_bit_Suc_bit)
  qed
  from top_bit_below [OF wc tb this] show ?thesis .
qed

lemma wf_keys_bit_order: "wf_keys h t \<Longrightarrow> dups_lowest h t \<Longrightarrow> bit_order h t"
proof (induction t)
  case (Leaf a)
  then show ?case
    by simp
next
  case (Node a l r)
  let ?n = "nat (node_bit (nodes h a))"
  show ?case
  proof (cases "node_bit (nodes h a) < 0")
    case True
    with Node.prems(2) have l: "only_dups h l" and r: "only_dups h r"
      by simp_all
    with True only_dups_top [OF l] only_dups_top [OF r] only_dups_bit_order show ?thesis
      by simp
  next
    case False
    with Node.prems
    have pl: "\<forall>c \<in> set (leaves l).
           drop_bit (Suc ?n) (key_of h c) = drop_bit (Suc ?n) (key_of h a) \<and>
           bit (key_of h c) ?n = False"
      and pr: "\<forall>c \<in> set (leaves r).
           drop_bit (Suc ?n) (key_of h c) = drop_bit (Suc ?n) (key_of h a) \<and>
           bit (key_of h c) ?n = True"
      and wl: "wf_keys h l" and wr: "wf_keys h r"
      and dl: "dups_lowest h l" and dr: "dups_lowest h r"
      by (simp_all del: drop_bit_Suc)
    have "b < node_bit (nodes h a)" if "top_bit h l = Some b" for b
      using child_bit_below [OF wl that pl] False by simp
    moreover have "b < node_bit (nodes h a)" if "top_bit h r = Some b" for b
      using child_bit_below [OF wr that pr] False by simp
    ultimately show ?thesis
      using False Node.IH(1) [OF wl dl] Node.IH(2) [OF wr dr] by simp
  qed
qed

lemma built_bit_order:
  assumes "distinct as" "as \<noteq> []" "128 \<le> bpl \<or> (\<forall>a \<in> set as. ks a < 2 ^ 64)"
  shows "\<exists>h t. insert_all (eb128_insert bpl) (fresh_heap unique ks) as = Some h \<and>
           tree_inv h t \<and> bit_order h t \<and> key_of h = ks \<and> set (leaves t) \<subseteq> set as \<and>
           (\<not> unique \<longrightarrow> set (leaves t) = set as)"
proof -
  from built_tree_inv [OF assms, of unique] obtain h t where
    run: "insert_all (eb128_insert bpl) (fresh_heap unique ks) as = Some h"
    and inv: "tree_inv h t" and rest: "key_of h = ks" "set (leaves t) \<subseteq> set as"
      "\<not> unique \<longrightarrow> set (leaves t) = set as"
    by blast
  from inv have "bit_order h t"
    by (simp add: tree_inv_def well_formed_def wf_keys_bit_order)
  with run inv rest show ?thesis
    by blast
qed

end
